theory Spec2Isabelle
  imports Main "HOL-Library.AList"
begin

section \<open>The crossword constraint solver (Projects3/crossword/temp.py)\<close>

subsection \<open>Data model\<close>

text \<open>
  Python sets are modelled as duplicate-free lists whose order stands for the iteration
  order of the set; dictionaries are association lists in insertion order, read with
  \<open>map_of\<close> and written with \<open>AList.update\<close>. Words are strings.
  Every exception the source can raise is a value of type \<open>error\<close>; a method that
  works on \<open>self.domains\<close> takes the domain store and returns it next to its result,
  also when it raises.
\<close>

datatype error = KeyError | IndexError | ValueError | ReferenceError

datatype direction = ACROSS | DOWN

text \<open>
  Modelled from the spec: the class \<open>Variable\<close> of module \<open>crossword\<close> is not part of
  the sources. A variable is a slot: start row, start column, direction and required
  length.
\<close>

datatype variable = Variable (row: nat) (col: nat) (direction: direction) (vlength: nat)

text \<open>
  Modelled from the spec: the class \<open>Crossword\<close> of module \<open>crossword\<close> is not part of
  the sources. The solver reads its vocabulary \<open>words\<close>, its set of \<open>variables\<close> and
  the table \<open>overlaps\<close>, which holds for a pair of variables either \<open>None\<close> (the slots
  do not cross) or the pair of character positions at which they cross.
\<close>

record crossword =
  words :: "string list"
  variables :: "variable list"
  overlaps :: "variable \<times> variable \<Rightarrow> (nat \<times> nat) option option"

text \<open>
  Modelled from the spec: the method \<open>Crossword.neighbors\<close> is not part of the sources.
  Neighbors(x) is the set of variables \<open>y \<noteq> x\<close> such that an overlap of \<open>x\<close> and \<open>y\<close> exists.
\<close>

definition crossing :: "crossword \<Rightarrow> variable \<Rightarrow> variable \<Rightarrow> bool" where
  "crossing cw x y =
     (case overlaps cw (x, y) of Some (Some p) \<Rightarrow> True | _ \<Rightarrow> False)"

definition neighbors :: "crossword \<Rightarrow> variable \<Rightarrow> variable list" where
  "neighbors cw x = filter (\<lambda>y. y \<noteq> x \<and> crossing cw x y) (variables cw)"

type_synonym domains = "(variable \<times> string list) list"

subsection \<open>Domain store and node consistency\<close>

text \<open>\<open>CrosswordCreator.__init__\<close>: every variable gets its own copy of the vocabulary.\<close>

definition init_domains :: "crossword \<Rightarrow> domains" where
  "init_domains cw = map (\<lambda>var. (var, words cw)) (variables cw)"

text \<open>\<open>set.difference_update\<close>: remove from \<open>s\<close> every element of \<open>rem\<close>.\<close>

definition difference_update :: "'a list \<Rightarrow> 'a list \<Rightarrow> 'a list" where
  "difference_update s rem = filter (\<lambda>w. w \<notin> set rem) s"

text \<open>
  One pass of the loop of \<open>enforce_node_consistency\<close>. The loop runs over the keys of
  \<open>self.domains\<close>, so the lookup of \<open>var\<close> cannot fail there.
\<close>

definition node_step :: "variable \<Rightarrow> domains \<Rightarrow> domains" where
  "node_step var doms =
     (case map_of doms var of
        None \<Rightarrow> doms
      | Some ws \<Rightarrow>
          (let words_to_remove = filter (\<lambda>word. vlength var \<noteq> length word) ws
           in AList.update var (difference_update ws words_to_remove) doms))"

definition enforce_node_consistency :: "domains \<Rightarrow> domains" where
  "enforce_node_consistency doms = fold node_step (map fst doms) doms"

subsection \<open>Arc consistency\<close>

text \<open>
  The generator handed to \<open>any\<close> in \<open>revise\<close>: it stops at the first word of the
  neighbour's domain that agrees, and indexing out of range raises \<open>IndexError\<close>
  (\<open>x_word[overlap[0]]\<close> is evaluated before \<open>y_word[overlap[1]]\<close>).
\<close>

fun any_agree :: "nat \<Rightarrow> nat \<Rightarrow> string \<Rightarrow> string list \<Rightarrow> error + bool" where
  "any_agree i j x_word [] = Inr False"
| "any_agree i j x_word (y_word # rest) =
     (if length x_word \<le> i then Inl IndexError
      else if length y_word \<le> j then Inl IndexError
      else if x_word ! i = y_word ! j then Inr True
      else any_agree i j x_word rest)"

text \<open>
  The \<open>for x_word in x_domain\<close> loop of \<open>revise\<close>, with its two loop variables
  \<open>words_to_remove\<close> and \<open>revised\<close>. \<open>self.domains[y]\<close> is looked up once for every
  \<open>x_word\<close>, when the generator starts.
\<close>

fun revise_loop ::
  "domains \<Rightarrow> variable \<Rightarrow> nat \<Rightarrow> nat \<Rightarrow> string list \<Rightarrow> string list \<times> bool
    \<Rightarrow> error + string list \<times> bool" where
  "revise_loop doms y i j [] (words_to_remove, revised) = Inr (words_to_remove, revised)"
| "revise_loop doms y i j (x_word # rest) (words_to_remove, revised) =
     (case map_of doms y of
        None \<Rightarrow> Inl KeyError
      | Some y_domain \<Rightarrow>
          (case any_agree i j x_word y_domain of
             Inl e \<Rightarrow> Inl e
           | Inr is_consistent \<Rightarrow>
               if \<not> is_consistent
               then revise_loop doms y i j rest (words_to_remove @ [x_word], True)
               else revise_loop doms y i j rest (words_to_remove, revised)))"

text \<open>
  \<open>revise\<close>: \<open>self.crossword.overlaps[(x, y)]\<close> raises \<open>KeyError\<close> for a pair that is not in
  the table. The words without support are collected first and removed from the domain of
  \<open>x\<close> at the end, so an exception leaves the store as it was.
\<close>

definition revise ::
  "crossword \<Rightarrow> domains \<Rightarrow> variable \<Rightarrow> variable \<Rightarrow> (error + bool) \<times> domains" where
  "revise cw doms x y =
     (case overlaps cw (x, y) of
        None \<Rightarrow> (Inl KeyError, doms)
      | Some None \<Rightarrow> (Inr False, doms)
      | Some (Some (i, j)) \<Rightarrow>
          (case map_of doms x of
             None \<Rightarrow> (Inl KeyError, doms)
           | Some x_domain \<Rightarrow>
               (case revise_loop doms y i j x_domain ([], False) of
                  Inl e \<Rightarrow> (Inl e, doms)
                | Inr (words_to_remove, revised) \<Rightarrow>
                    (Inr revised,
                     AList.update x (difference_update x_domain words_to_remove) doms))))"

text \<open>The initial queue of \<open>ac3\<close>: all arcs \<open>(x, y)\<close> with \<open>y\<close> a neighbour of \<open>x\<close>.\<close>

definition initial_arcs :: "crossword \<Rightarrow> (variable \<times> variable) list" where
  "initial_arcs cw =
     concat (map (\<lambda>x. map (\<lambda>y. (x, y)) (neighbors cw x)) (variables cw))"

text \<open>
  The loop of \<open>ac3\<close> terminates because a call of \<open>revise\<close> that returns true removes a
  word: the total number of words in the store is the measure, the length of the queue
  decides between arcs that leave the store alone.
\<close>

definition total_size :: "domains \<Rightarrow> nat" where
  "total_size doms = sum_list (map (\<lambda>p. length (snd p)) doms)"

lemma total_size_update_le:
  "map_of doms x = Some ws \<Longrightarrow> length ws' \<le> length ws
     \<Longrightarrow> total_size (AList.update x ws' doms) \<le> total_size doms"
  by (induction doms) (auto simp: total_size_def)

lemma total_size_update_less:
  "map_of doms x = Some ws \<Longrightarrow> length ws' < length ws
     \<Longrightarrow> total_size (AList.update x ws' doms) < total_size doms"
  by (induction doms) (auto simp: total_size_def)

lemma revise_loop_acc:
  "revise_loop doms y i j xs (acc, r) = Inr (rem, r')
     \<Longrightarrow> (\<exists>new. rem = acc @ new \<and> set new \<subseteq> set xs \<and> (r' = (r \<or> new \<noteq> [])))"
proof (induction xs arbitrary: acc r)
  case Nil
  then show ?case by simp
next
  case (Cons x_word rest)
  from Cons.prems obtain y_domain b where
    y: "map_of doms y = Some y_domain" and b: "any_agree i j x_word y_domain = Inr b"
    by (auto split: option.splits sum.splits)
  show ?case
  proof (cases b)
    case True
    with Cons.prems y b have "revise_loop doms y i j rest (acc, r) = Inr (rem, r')"
      by simp
    from Cons.IH [OF this] show ?thesis by auto
  next
    case False
    with Cons.prems y b
    have "revise_loop doms y i j rest (acc @ [x_word], True) = Inr (rem, r')"
      by simp
    from Cons.IH [OF this] obtain new where
      "rem = (acc @ [x_word]) @ new" "set new \<subseteq> set rest" "r' = (True \<or> new \<noteq> [])"
      by blast
    then have "rem = acc @ (x_word # new) \<and> set (x_word # new) \<subseteq> set (x_word # rest)
        \<and> (r' = (r \<or> x_word # new \<noteq> []))"
      by auto
    then show ?thesis by blast
  qed
qed

lemma length_difference_update_le: "length (difference_update s rem) \<le> length s"
  by (simp add: difference_update_def)

lemma length_difference_update_less:
  "w \<in> set rem \<Longrightarrow> w \<in> set s \<Longrightarrow> length (difference_update s rem) < length s"
  unfolding difference_update_def by (rule length_filter_less) auto

lemma revise_total_size_le:
  "revise cw doms x y = (res, doms') \<Longrightarrow> total_size doms' \<le> total_size doms"
  by (auto simp: revise_def total_size_update_le length_difference_update_le
           split: option.splits sum.splits prod.splits)

lemma revise_True_total_size:
  assumes "revise cw doms x y = (Inr True, doms')"
  shows "total_size doms' < total_size doms"
proof -
  from assms obtain i j x_domain rem where
    x: "map_of doms x = Some x_domain" and
    l: "revise_loop doms y i j x_domain ([], False) = Inr (rem, True)" and
    d: "doms' = AList.update x (difference_update x_domain rem) doms"
    by (auto simp: revise_def split: option.splits sum.splits prod.splits)
  from revise_loop_acc [OF l] have "rem \<noteq> []" "set rem \<subseteq> set x_domain"
    by auto
  then obtain w where "w \<in> set rem" "w \<in> set x_domain"
    by (cases rem) auto
  then have "length (difference_update x_domain rem) < length x_domain"
    by (rule length_difference_update_less)
  with x d show ?thesis
    by (simp add: total_size_update_less)
qed

text \<open>
  The \<open>while queue\<close> loop of \<open>ac3\<close>. \<open>queue.pop(0)\<close> takes the head, \<open>queue.append\<close>
  adds at the end.
\<close>

function ac3_loop ::
  "crossword \<Rightarrow> domains \<Rightarrow> (variable \<times> variable) list \<Rightarrow> (error + bool) \<times> domains" where
  "ac3_loop cw doms [] = (Inr True, doms)"
| "ac3_loop cw doms ((x, y) # queue) =
     (case revise cw doms x y of
        (Inl e, doms') \<Rightarrow> (Inl e, doms')
      | (Inr revised, doms') \<Rightarrow>
          if revised then
            (case map_of doms' x of
               None \<Rightarrow> (Inl KeyError, doms')
             | Some x_domain \<Rightarrow>
                 if x_domain = [] then (Inr False, doms')
                 else ac3_loop cw doms'
                        (queue @ map (\<lambda>z. (z, x)) (filter (\<lambda>z. z \<noteq> y) (neighbors cw x))))
          else ac3_loop cw doms' queue)"
  by pat_completeness auto

termination
proof (relation "measures [\<lambda>(cw, doms, queue). total_size doms,
                           \<lambda>(cw, doms, queue). length queue]", goal_cases)
  case 1
  show ?case by simp
next
  case 2
  then show ?case
    by (auto dest: revise_True_total_size [OF sym])
next
  case 3
  then show ?case
    by (auto dest: revise_total_size_le [OF sym])
qed

text \<open>\<open>ac3\<close>: without \<open>arcs\<close> the queue starts with all arcs of the puzzle.\<close>

definition ac3 ::
  "crossword \<Rightarrow> domains \<Rightarrow> (variable \<times> variable) list option \<Rightarrow> (error + bool) \<times> domains"
  where
  "ac3 cw doms arcs =
     ac3_loop cw doms (case arcs of None \<Rightarrow> initial_arcs cw | Some as \<Rightarrow> as)"

subsection \<open>The consistency checker\<close>

text \<open>
  An assignment is a Python dict from variables to words: an association list in
  insertion order. \<open>new_assignment[var] = value\<close> is \<open>AList.update\<close>, which appends a
  new key at the end.
\<close>

type_synonym assignment = "(variable \<times> string) list"

text \<open>\<open>assignment_complete\<close> compares the set of the keys with the set of the variables.\<close>

definition assignment_complete :: "crossword \<Rightarrow> assignment \<Rightarrow> bool" where
  "assignment_complete cw assignment = (set (map fst assignment) = set (variables cw))"

text \<open>
  The first loop of \<open>consistent\<close>, with its set \<open>values\<close> of the words seen so far: it
  rejects a word of the wrong length and a word seen before.
\<close>

fun consistent_values :: "assignment \<Rightarrow> string list \<Rightarrow> bool" where
  "consistent_values [] values = True"
| "consistent_values ((var, word) # rest) values =
     (if vlength var \<noteq> length word \<or> word \<in> set values then False
      else consistent_values rest (values @ [word]))"

text \<open>
  The second loop of \<open>consistent\<close>: \<open>consistent_neighbors\<close> is the inner loop over the
  neighbours of \<open>var1\<close>, \<open>consistent_overlaps\<close> the outer loop over the keys of the
  assignment. \<open>overlaps.get\<close> yields \<open>None\<close> for a missing pair, and a pair of positions
  is always true as a condition. \<open>assignment[var1][i]\<close> is evaluated before
  \<open>assignment[var2][j]\<close>.
\<close>

fun consistent_neighbors ::
  "crossword \<Rightarrow> assignment \<Rightarrow> variable \<Rightarrow> variable list \<Rightarrow> error + bool" where
  "consistent_neighbors cw assignment var1 [] = Inr True"
| "consistent_neighbors cw assignment var1 (var2 # rest) =
     (case map_of assignment var2 of
        None \<Rightarrow> consistent_neighbors cw assignment var1 rest
      | Some word2 \<Rightarrow>
          (case overlaps cw (var1, var2) of
             Some (Some (i, j)) \<Rightarrow>
               (case map_of assignment var1 of
                  None \<Rightarrow> Inl KeyError
                | Some word1 \<Rightarrow>
                    if length word1 \<le> i then Inl IndexError
                    else if length word2 \<le> j then Inl IndexError
                    else if word1 ! i \<noteq> word2 ! j then Inr False
                    else consistent_neighbors cw assignment var1 rest)
           | _ \<Rightarrow> consistent_neighbors cw assignment var1 rest))"

fun consistent_overlaps :: "crossword \<Rightarrow> assignment \<Rightarrow> variable list \<Rightarrow> error + bool" where
  "consistent_overlaps cw assignment [] = Inr True"
| "consistent_overlaps cw assignment (var1 # rest) =
     (case consistent_neighbors cw assignment var1 (neighbors cw var1) of
        Inl e \<Rightarrow> Inl e
      | Inr ok \<Rightarrow> if ok then consistent_overlaps cw assignment rest else Inr False)"

definition consistent :: "crossword \<Rightarrow> assignment \<Rightarrow> error + bool" where
  "consistent cw assignment =
     (if consistent_values assignment []
      then consistent_overlaps cw assignment (map fst assignment)
      else Inr False)"

subsection \<open>The ordering heuristics\<close>

text \<open>
  \<open>order_domain_values\<close>: \<open>count_conflicts\<close> is the innermost loop over the values of
  one neighbour, \<open>value_constraint\<close> the loop over the unassigned neighbours for one
  value, and \<open>constraints\<close> the loop over the values of the domain, which fills the
  dictionary \<open>constraint\<close>. A value that is not a key of this \<open>defaultdict(int)\<close> counts
  as 0. \<open>sorted\<close> is stable, as \<open>sort_key\<close> is.
\<close>

fun count_conflicts :: "nat \<Rightarrow> nat \<Rightarrow> string \<Rightarrow> string list \<Rightarrow> error + nat" where
  "count_conflicts i j val [] = Inr 0"
| "count_conflicts i j val (neighbor_value # rest) =
     (if length val \<le> i then Inl IndexError
      else if length neighbor_value \<le> j then Inl IndexError
      else (case count_conflicts i j val rest of
              Inl e \<Rightarrow> Inl e
            | Inr n \<Rightarrow> Inr (if val ! i \<noteq> neighbor_value ! j then Suc n else n)))"

fun value_constraint ::
  "crossword \<Rightarrow> domains \<Rightarrow> variable \<Rightarrow> string \<Rightarrow> variable list \<Rightarrow> error + nat" where
  "value_constraint cw doms var val [] = Inr 0"
| "value_constraint cw doms var val (neighbor # rest) =
     (case overlaps cw (var, neighbor) of
        Some (Some (i, j)) \<Rightarrow>
          (case map_of doms neighbor of
             None \<Rightarrow> Inl KeyError
           | Some neighbor_domain \<Rightarrow>
               (case count_conflicts i j val neighbor_domain of
                  Inl e \<Rightarrow> Inl e
                | Inr n \<Rightarrow>
                    (case value_constraint cw doms var val rest of
                       Inl e \<Rightarrow> Inl e
                     | Inr m \<Rightarrow> Inr (n + m))))
      | _ \<Rightarrow> value_constraint cw doms var val rest)"

fun constraints ::
  "crossword \<Rightarrow> domains \<Rightarrow> variable \<Rightarrow> variable list \<Rightarrow> string list
    \<Rightarrow> error + (string \<times> nat) list" where
  "constraints cw doms var nbrs [] = Inr []"
| "constraints cw doms var nbrs (val # rest) =
     (case value_constraint cw doms var val nbrs of
        Inl e \<Rightarrow> Inl e
      | Inr n \<Rightarrow>
          (case constraints cw doms var nbrs rest of
             Inl e \<Rightarrow> Inl e
           | Inr c \<Rightarrow> Inr ((val, n) # c)))"

definition order_domain_values ::
  "crossword \<Rightarrow> domains \<Rightarrow> variable \<Rightarrow> assignment \<Rightarrow> error + string list" where
  "order_domain_values cw doms var assignment =
     (let nbrs = filter (\<lambda>n. n \<notin> set (map fst assignment)) (neighbors cw var)
      in case map_of doms var of
           None \<Rightarrow> Inl KeyError
         | Some var_domain \<Rightarrow>
             (case constraints cw doms var nbrs var_domain of
                Inl e \<Rightarrow> Inl e
              | Inr constraint \<Rightarrow>
                  Inr (sort_key (\<lambda>val. case map_of constraint val of None \<Rightarrow> 0 | Some n \<Rightarrow> n)
                         var_domain)))"

text \<open>
  \<open>select_unassigned_variable\<close>: the key of a variable is the pair of the size of its
  domain and the negated number of its neighbours; Python compares such pairs
  lexicographically (\<open>key_less\<close>). \<open>min\<close> raises \<open>ValueError\<close> on an empty list and
  otherwise keeps the first element with the least key (\<open>min_loop\<close>).
\<close>

definition select_key :: "crossword \<Rightarrow> domains \<Rightarrow> variable \<Rightarrow> error + int \<times> int" where
  "select_key cw doms var =
     (case map_of doms var of
        None \<Rightarrow> Inl KeyError
      | Some ws \<Rightarrow> Inr (int (length ws), - int (length (neighbors cw var))))"

definition key_less :: "int \<times> int \<Rightarrow> int \<times> int \<Rightarrow> bool" where
  "key_less k k' = (fst k < fst k' \<or> (fst k = fst k' \<and> snd k < snd k'))"

fun min_loop ::
  "crossword \<Rightarrow> domains \<Rightarrow> variable \<times> int \<times> int \<Rightarrow> variable list \<Rightarrow> error + variable" where
  "min_loop cw doms (best, best_key) [] = Inr best"
| "min_loop cw doms (best, best_key) (var # rest) =
     (case select_key cw doms var of
        Inl e \<Rightarrow> Inl e
      | Inr k \<Rightarrow>
          if key_less k best_key then min_loop cw doms (var, k) rest
          else min_loop cw doms (best, best_key) rest)"

definition unassigned_vars :: "crossword \<Rightarrow> assignment \<Rightarrow> variable list" where
  "unassigned_vars cw assignment =
     filter (\<lambda>var. var \<notin> set (map fst assignment)) (variables cw)"

definition select_unassigned_variable ::
  "crossword \<Rightarrow> domains \<Rightarrow> assignment \<Rightarrow> error + variable" where
  "select_unassigned_variable cw doms assignment =
     (case unassigned_vars cw assignment of
        [] \<Rightarrow> Inl ValueError
      | var # rest \<Rightarrow>
          (case select_key cw doms var of
             Inl e \<Rightarrow> Inl e
           | Inr k \<Rightarrow> min_loop cw doms (var, k) rest))"

subsection \<open>Backtracking search\<close>

text \<open>
  \<open>backtrack\<close> works on dict objects: it receives a reference, copies the object and
  updates the copy. The objects live in a heap, a list of assignments, and a reference is
  an index into it; \<open>assignment.copy()\<close> appends the copy to the heap. The search
  returns, next to its result, the domain store and the heap it leaves behind.
  A reference Python hands to \<open>backtrack\<close> always points to a live object. An index
  beyond the heap has no counterpart in Python; the model stops there with
  \<open>ReferenceError\<close>.
\<close>

type_synonym ref = nat

type_synonym heap = "assignment list"

definition alloc :: "heap \<Rightarrow> assignment \<Rightarrow> ref \<times> heap" where
  "alloc h a = (length h, h @ [a])"

text \<open>
  \<open>if result:\<close> is true for a dict that is not empty, and false for \<open>None\<close> and for the
  empty dict.
\<close>

definition truthy :: "heap \<Rightarrow> ref option \<Rightarrow> bool" where
  "truthy h result = (case result of None \<Rightarrow> False | Some r \<Rightarrow> h ! r \<noteq> [])"

text \<open>
  The recursion: \<open>backtrack\<close> and the loop over the ordered values of the selected
  variable, \<open>backtrack_loop\<close>. They terminate because every recursive call of \<open>backtrack\<close>
  is on an assignment with one unassigned variable less; the loop reads the given
  assignment again after a recursive call has returned, so the termination proof needs
  that the call has left the objects that existed before it unchanged
  (\<open>backtrack_heap_partial\<close>).
\<close>

lemma min_loop_mem:
  "min_loop cw doms (best, k) vars = Inr var \<Longrightarrow> var = best \<or> var \<in> set vars"
  by (induction vars arbitrary: best k) (auto split: sum.splits if_splits)

lemma select_unassigned_variable_mem:
  assumes "select_unassigned_variable cw doms a = Inr var"
  shows "var \<in> set (unassigned_vars cw a)"
proof -
  from assms obtain v rest k where
    f: "unassigned_vars cw a = v # rest" and "min_loop cw doms (v, k) rest = Inr var"
    by (auto simp: select_unassigned_variable_def unassigned_vars_def split: list.splits sum.splits)
  from min_loop_mem [OF this(2)] f show ?thesis by auto
qed

lemma unassigned_vars_update:
  "unassigned_vars cw (AList.update var val a) = filter (\<lambda>v. v \<noteq> var) (unassigned_vars cw a)"
  by (auto simp: unassigned_vars_def update_keys intro: filter_cong)

function backtrack ::
    "crossword \<Rightarrow> domains \<Rightarrow> heap \<Rightarrow> ref \<Rightarrow> (error + ref option) \<times> domains \<times> heap"
  and backtrack_loop ::
    "crossword \<Rightarrow> domains \<Rightarrow> heap \<Rightarrow> ref \<Rightarrow> variable \<Rightarrow> string list
      \<Rightarrow> (error + ref option) \<times> domains \<times> heap" where
  "backtrack cw doms h assignment =
     (if length h \<le> assignment then (Inl ReferenceError, doms, h)
      else if assignment_complete cw (h ! assignment) then (Inr (Some assignment), doms, h)
      else
        (case select_unassigned_variable cw doms (h ! assignment) of
           Inl e \<Rightarrow> (Inl e, doms, h)
         | Inr var \<Rightarrow>
             (case order_domain_values cw doms var (h ! assignment) of
                Inl e \<Rightarrow> (Inl e, doms, h)
              | Inr vals \<Rightarrow> backtrack_loop cw doms h assignment var vals)))"
| "backtrack_loop cw doms h assignment var [] = (Inr None, doms, h)"
| "backtrack_loop cw doms h assignment var (val # rest) =
     (if length h \<le> assignment then (Inl ReferenceError, doms, h)
      else
        (case alloc h (h ! assignment) of
           (new_assignment, h1) \<Rightarrow>
             (let h2 = h1[new_assignment := AList.update var val (h1 ! new_assignment)]
              in case consistent cw (h2 ! new_assignment) of
                   Inl e \<Rightarrow> (Inl e, doms, h2)
                 | Inr ok \<Rightarrow>
                     if ok then
                       (case backtrack cw doms h2 new_assignment of
                          (Inl e, doms', h') \<Rightarrow> (Inl e, doms', h')
                        | (Inr result, doms', h') \<Rightarrow>
                            if truthy h' result then (Inr result, doms', h')
                            else backtrack_loop cw doms' h' assignment var rest)
                     else backtrack_loop cw doms h2 assignment var rest)))"
  by pat_completeness auto

definition heap_of :: "(error + ref option) \<times> domains \<times> heap \<Rightarrow> heap" where
  "heap_of res = snd (snd res)"

lemma backtrack_heap_partial:
  "backtrack_backtrack_loop_dom (Inl (cw, doms, h, r))
     \<Longrightarrow> \<exists>ext. heap_of (backtrack cw doms h r) = h @ ext"
  "backtrack_backtrack_loop_dom (Inr (cw, doms, h, r, var, vals))
     \<Longrightarrow> \<exists>ext. heap_of (backtrack_loop cw doms h r var vals) = h @ ext"
proof (induction cw doms h r and cw doms h r var vals rule: backtrack_backtrack_loop.pinduct)
  case (1 cw doms h assignment)
  then show ?case
    by (auto simp: backtrack.psimps heap_of_def split: sum.splits)
next
  case (2 cw doms h assignment var)
  then show ?case
    by (simp add: backtrack_loop.psimps heap_of_def)
next
  case (3 cw doms h r var val rest)
  note dom = "3.hyps"
  show ?case
  proof (cases "length h \<le> r")
    case True
    with dom show ?thesis
      by (simp add: backtrack_loop.psimps heap_of_def)
  next
    case valid: False
    define h1 where "h1 = h @ [h ! r]"
    define h2 where "h2 = h1[length h := AList.update var val (h1 ! length h)]"
    have al: "(length h, h1) = alloc h (h ! r)"
      by (simp add: alloc_def h1_def)
    have h2: "h2 = h @ [AList.update var val (h ! r)]"
      by (simp add: h2_def h1_def)
    show ?thesis
    proof (cases "consistent cw (h2 ! length h)")
      case (Inl e)
      with dom valid al [symmetric] h2 show ?thesis
        by (simp add: backtrack_loop.psimps heap_of_def h2_def [symmetric])
    next
      case (Inr ok)
      show ?thesis
      proof (cases ok)
        case False
        from "3.IH"(3) [OF valid al h2_def Inr False]
        obtain ext where "heap_of (backtrack_loop cw doms h2 r var rest) = h2 @ ext" ..
        with dom valid al [symmetric] Inr False h2 show ?thesis
          by (simp add: backtrack_loop.psimps h2_def [symmetric])
      next
        case True
        obtain res d' h' where b: "backtrack cw doms h2 (length h) = (res, d', h')"
          by (cases "backtrack cw doms h2 (length h)")
        from "3.IH"(1) [OF valid al h2_def Inr True] b
        obtain ext where e: "h' = h2 @ ext"
          by (auto simp: heap_of_def)
        show ?thesis
        proof (cases res)
          case (Inl e')
          with dom valid al [symmetric] Inr True b e h2 show ?thesis
            by (simp add: backtrack_loop.psimps heap_of_def h2_def [symmetric])
        next
          case res: (Inr result)
          show ?thesis
          proof (cases "truthy h' result")
            case t: True
            with dom valid al [symmetric] Inr True b e h2 res show ?thesis
              by (simp add: backtrack_loop.psimps heap_of_def h2_def [symmetric])
          next
            case t: False
            from "3.IH"(2) [OF valid al h2_def Inr True b [symmetric] res refl t]
            obtain ext' where "heap_of (backtrack_loop cw d' h' r var rest) = h' @ ext'" ..
            with dom valid al [symmetric] Inr True b e h2 res t show ?thesis
              by (simp add: backtrack_loop.psimps h2_def [symmetric])
          qed
        qed
      qed
    qed
  qed
qed

termination backtrack
proof (relation "measures
    [\<lambda>x. case x of
            Inl (cw, doms, h, r) \<Rightarrow> 2 * length (unassigned_vars cw (h ! r))
          | Inr (cw, doms, h, r, var, vals) \<Rightarrow>
              2 * length (filter (\<lambda>v. v \<noteq> var) (unassigned_vars cw (h ! r))) + 1,
     \<lambda>x. case x of Inl p \<Rightarrow> 0 | Inr (cw, doms, h, r, var, vals) \<Rightarrow> length vals]",
    goal_cases)
  case 1
  show ?case by simp
next
  case (2 cw doms h r var vals)
  from select_unassigned_variable_mem [OF 2(3)]
  have "length (filter (\<lambda>v. v \<noteq> var) (unassigned_vars cw (h ! r))) < length (unassigned_vars cw (h ! r))"
    by (intro length_filter_less) auto
  then show ?case by simp
next
  case (3 cw doms h r var val rest new h1 h2 ok)
  then show ?case
    by (simp add: alloc_def unassigned_vars_update)
next
  case (4 cw doms h r var val rest new h1 h2 ok res rest' result doms' h')
  from 4(2,3) have h2: "h2 = h @ [AList.update var val (h ! r)]" and new: "new = length h"
    by (simp_all add: alloc_def)
  from backtrack_heap_partial(1) [OF 4(10)] 4(6,8) [symmetric]
  obtain ext where "h' = h2 @ ext"
    by (auto simp: heap_of_def)
  with h2 4(1) have "h' ! r = h ! r"
    by (simp add: nth_append)
  then show ?case by simp
next
  case (5 cw doms h r var val rest new h1 h2 ok)
  then have "h2 ! r = h ! r"
    by (simp add: alloc_def nth_append)
  then show ?case by simp
qed

declare backtrack.simps [simp del] backtrack_loop.simps [simp del]

subsection \<open>The solver\<close>

text \<open>
  \<open>solve\<close> calls three methods in a row. The model returns, next to the result, the list
  of the calls made, in order. The value \<open>ac3\<close> returns is not used: only an exception
  raised by \<open>ac3\<close> keeps \<open>solve\<close> from calling \<open>backtrack\<close>, on a fresh empty dict.
\<close>

datatype call = Call_enforce_node_consistency | Call_ac3 | Call_backtrack

definition solve ::
  "crossword \<Rightarrow> domains \<Rightarrow> heap \<Rightarrow> ((error + ref option) \<times> domains \<times> heap) \<times> call list" where
  "solve cw doms h =
     (let doms1 = enforce_node_consistency doms
      in case ac3 cw doms1 None of
           (Inl e, doms2) \<Rightarrow>
             ((Inl e, doms2, h), [Call_enforce_node_consistency, Call_ac3])
         | (Inr ok, doms2) \<Rightarrow>
             (backtrack cw doms2 (h @ [[]]) (length h),
              [Call_enforce_node_consistency, Call_ac3, Call_backtrack]))"

subsection \<open>Predicates of the specification\<close>

text \<open>
  Two words agree at positions \<open>(i, j)\<close> when both positions exist and hold the same
  letter; a word has support in a domain when it agrees with some word of the domain.
\<close>

definition agree :: "nat \<Rightarrow> nat \<Rightarrow> string \<Rightarrow> string \<Rightarrow> bool" where
  "agree i j w w' = (i < length w \<and> j < length w' \<and> w ! i = w' ! j)"

definition has_support :: "nat \<Rightarrow> nat \<Rightarrow> string list \<Rightarrow> string \<Rightarrow> bool" where
  "has_support i j ys w = list_ex (agree i j w) ys"

text \<open>The domain of \<open>v\<close> in \<open>doms'\<close> is a part of the domain of \<open>v\<close> in \<open>doms\<close>.\<close>

definition shrunk :: "domains \<Rightarrow> domains \<Rightarrow> variable \<Rightarrow> bool" where
  "shrunk doms doms' v =
     (case (map_of doms v, map_of doms' v) of
        (Some ws, Some ws') \<Rightarrow> set ws' \<subseteq> set ws \<and> length ws' \<le> length ws
      | (None, None) \<Rightarrow> True
      | _ \<Rightarrow> False)"

text \<open>
  Modelled from the spec: the puzzle builder is not part of the sources. A puzzle
  description is valid when the overlap of a pair of its variables lies within the
  lengths of both and is the overlap of the swapped pair with the positions swapped (the
  overlap belongs to the unordered pair).
\<close>

definition wf_crossword :: "crossword \<Rightarrow> bool" where
  "wf_crossword cw =
     (\<forall>x\<in>set (variables cw). \<forall>y\<in>set (variables cw).
        case overlaps cw (x, y) of
          Some (Some (i, j)) \<Rightarrow>
            i < vlength x \<and> j < vlength y \<and> overlaps cw (y, x) = Some (Some (j, i))
        | _ \<Rightarrow> True)"

text \<open>
  The store has a domain for every variable; every word in it has the length of its
  variable; the arc \<open>(x, y)\<close> is consistent.
\<close>

definition has_domains :: "crossword \<Rightarrow> domains \<Rightarrow> bool" where
  "has_domains cw doms = (\<forall>v\<in>set (variables cw). map_of doms v \<noteq> None)"

definition node_consistent :: "crossword \<Rightarrow> domains \<Rightarrow> bool" where
  "node_consistent cw doms =
     (\<forall>v\<in>set (variables cw).
        case map_of doms v of None \<Rightarrow> False | Some ws \<Rightarrow> \<forall>w\<in>set ws. length w = vlength v)"

definition arc_consistent :: "crossword \<Rightarrow> domains \<Rightarrow> variable \<Rightarrow> variable \<Rightarrow> bool" where
  "arc_consistent cw doms x y =
     (case overlaps cw (x, y) of
        Some (Some (i, j)) \<Rightarrow>
          (case map_of doms x of
             None \<Rightarrow> False
           | Some xs \<Rightarrow>
               (case map_of doms y of
                  None \<Rightarrow> False
                | Some ys \<Rightarrow> \<forall>w\<in>set xs. has_support i j ys w))
      | _ \<Rightarrow> True)"

text \<open>
  \<open>s\<close> binds every variable \<open>a\<close> binds to the same word; \<open>s\<close> takes the word of every
  variable that \<open>a\<close> does not bind from the domain of that variable.
\<close>

definition extends :: "assignment \<Rightarrow> assignment \<Rightarrow> bool" where
  "extends a s = (\<forall>v w. map_of a v = Some w \<longrightarrow> map_of s v = Some w)"

definition from_domains :: "domains \<Rightarrow> assignment \<Rightarrow> assignment \<Rightarrow> bool" where
  "from_domains doms a s =
     (\<forall>v w. map_of a v = None \<longrightarrow> map_of s v = Some w
        \<longrightarrow> (\<exists>ws. map_of doms v = Some ws \<and> w \<in> set ws))"

definition post :: "crossword \<Rightarrow> domains \<Rightarrow> assignment \<Rightarrow> assignment \<Rightarrow> bool" where
  "post cw doms a s = (assignment_complete cw s \<and> extends a s \<and> from_domains doms a s)"

text \<open>
  What the checker decides, as a predicate, and a solution for a partial assignment \<open>a\<close>:
  a complete assignment that the checker accepts, extends \<open>a\<close> and draws on the domains.
\<close>

definition legal :: "crossword \<Rightarrow> assignment \<Rightarrow> bool" where
  "legal cw a =
     ((\<forall>(v, w)\<in>set a. vlength v = length w) \<and> distinct (map snd a) \<and>
      (\<forall>x y wx wy i j.
         map_of a x = Some wx \<longrightarrow> map_of a y = Some wy \<longrightarrow> y \<in> set (neighbors cw x) \<longrightarrow>
         overlaps cw (x, y) = Some (Some (i, j)) \<longrightarrow> wx ! i = wy ! j))"

definition solution :: "crossword \<Rightarrow> domains \<Rightarrow> assignment \<Rightarrow> assignment \<Rightarrow> bool" where
  "solution cw doms a s =
     (assignment_complete cw s \<and> consistent cw s = Inr True \<and> extends a s \<and>
      from_domains doms a s)"

subsection \<open>Example puzzles\<close>

text \<open>
  A grid with one slot of length 3, and a grid with an across and a down slot of length
  3 that cross at the second letter of the across word and the first letter of the down
  word, once with a vocabulary that has a solution and once with one that has none.
\<close>

definition slot_a :: variable where "slot_a = Variable 0 0 ACROSS 3"

definition slot_d :: variable where "slot_d = Variable 0 1 DOWN 3"

definition single_slot :: crossword where
  "single_slot = \<lparr>words = [''cat'', ''dog'', ''ox''], variables = [slot_a],
                  overlaps = (\<lambda>p. None)\<rparr>"

definition crossing_overlaps :: "variable \<times> variable \<Rightarrow> (nat \<times> nat) option option" where
  "crossing_overlaps = map_of [((slot_a, slot_d), Some (1, 0)), ((slot_d, slot_a), Some (0, 1))]"

definition two_slots :: crossword where
  "two_slots = \<lparr>words = [''cat'', ''car'', ''art''], variables = [slot_a, slot_d],
                overlaps = crossing_overlaps\<rparr>"

definition two_slots_unsolvable :: crossword where
  "two_slots_unsolvable = \<lparr>words = [''cat'', ''car'', ''rat''], variables = [slot_a, slot_d],
                overlaps = crossing_overlaps\<rparr>"

definition two_slots_doms :: domains where
  "two_slots_doms = enforce_node_consistency (init_domains two_slots)"

definition two_slots_pruned :: domains where
  "two_slots_pruned = [(slot_a, [''cat'', ''car'']), (slot_d, [''art''])]"

definition two_slots_heap :: heap where
  "two_slots_heap = [[], [(slot_d, ''art'')], [(slot_d, ''art''), (slot_a, ''cat'')]]"

definition unsolvable_doms :: domains where
  "unsolvable_doms = enforce_node_consistency (init_domains two_slots_unsolvable)"

definition unsolvable_pruned :: domains where
  "unsolvable_pruned = [(slot_a, []), (slot_d, [''cat'', ''car'', ''rat''])]"

section \<open>Properties\<close>

subsection \<open>Node consistency\<close>

lemma difference_update_filter:
  "difference_update ws (filter P ws) = filter (\<lambda>w. \<not> P w) ws"
  by (auto simp: difference_update_def intro: filter_cong)

lemma map_of_node_step:
  "map_of (node_step var doms) v =
     (if v = var then map_option (filter (\<lambda>w. vlength v = length w)) (map_of doms v)
      else map_of doms v)"
  by (auto simp: node_step_def difference_update_filter update_conv'
           split: option.splits)

lemma map_of_fold_node_step:
  "map_of (fold node_step ks doms) v =
     (if v \<in> set ks then map_option (filter (\<lambda>w. vlength v = length w)) (map_of doms v)
      else map_of doms v)"
proof (induction ks arbitrary: doms)
  case Nil
  then show ?case by simp
next
  case (Cons k ks)
  show ?case
    by (cases "map_of doms v") (auto simp: Cons.IH map_of_node_step)
qed

lemma map_of_enforce_node_consistency:
  "map_of (enforce_node_consistency doms) v =
     map_option (filter (\<lambda>w. vlength v = length w)) (map_of doms v)"
proof (cases "map_of doms v")
  case None
  then show ?thesis
    by (simp add: enforce_node_consistency_def map_of_fold_node_step)
next
  case (Some ws)
  then have "v \<in> set (map fst doms)"
    by (metis map_of_eq_None_iff option.distinct(1) set_map)
  with Some show ?thesis
    by (simp add: enforce_node_consistency_def map_of_fold_node_step)
qed

lemma map_of_init_domains:
  "map_of (init_domains cw) v = (if v \<in> set (variables cw) then Some (words cw) else None)"
  by (induction "variables cw" arbitrary: cw) (auto simp: init_domains_def map_of_map_restrict restrict_map_def)

lemma keys_node_step: "map fst (node_step var doms) = map fst doms"
  by (auto simp: node_step_def update_keys map_of_eq_None_iff split: option.splits)

lemma keys_enforce_node_consistency:
  "map fst (enforce_node_consistency doms) = map fst doms"
proof -
  have "map fst (fold node_step ks doms) = map fst doms" for ks
    by (induction ks arbitrary: doms) (simp_all add: keys_node_step)
  then show ?thesis by (simp add: enforce_node_consistency_def)
qed

text \<open>
  Claim C4. The domain store starts with one entry for every variable, holding the full
  vocabulary. \<open>enforce_node_consistency\<close> keeps the keys of the store and leaves under
  every key exactly the words of the old domain that have the length the variable
  requires: for a variable of the puzzle these are the words of the vocabulary of that
  length, so every word left in a domain has its variable's length.
\<close>

theorem node_consistency:
  "(\<forall>v\<in>set (variables cw). map_of (init_domains cw) v = Some (words cw)) \<and>
   (\<forall>v ws. map_of (enforce_node_consistency (init_domains cw)) v = Some ws
      \<longrightarrow> (\<forall>w\<in>set ws. length w = vlength v)) \<and>
   map fst (init_domains cw) = variables cw \<and>
   (\<forall>v\<in>set (variables cw).
      map_of (enforce_node_consistency (init_domains cw)) v =
        Some (filter (\<lambda>w. vlength v = length w) (words cw))) \<and>
   map fst (enforce_node_consistency doms) = map fst doms \<and>
   (\<forall>v. map_of (enforce_node_consistency doms) v =
        map_option (filter (\<lambda>w. vlength v = length w)) (map_of doms v))"
proof -
  have k: "map fst (init_domains cw) = variables cw"
    by (simp add: init_domains_def comp_def)
  show ?thesis
    by (auto simp: map_of_init_domains map_of_enforce_node_consistency
        keys_enforce_node_consistency k)
qed

subsection \<open>What revise does\<close>

lemma any_agree_Inr:
  "any_agree i j w ys = Inr b \<Longrightarrow> b = has_support i j ys w"
  by (induction ys) (auto simp: has_support_def agree_def split: if_splits)

lemma any_agree_in_range:
  "i < length w \<Longrightarrow> \<forall>w'\<in>set ys. j < length w'
     \<Longrightarrow> any_agree i j w ys = Inr (has_support i j ys w)"
  by (induction ys) (auto simp: has_support_def agree_def)

lemma revise_loop_Inr:
  "revise_loop doms y i j xs (acc, r) = Inr (rem, r') \<Longrightarrow> map_of doms y = Some ys
     \<Longrightarrow> rem = acc @ filter (\<lambda>w. \<not> has_support i j ys w) xs \<and>
         r' = (r \<or> (\<exists>w\<in>set xs. \<not> has_support i j ys w))"
proof (induction xs arbitrary: acc r)
  case Nil
  then show ?case by simp
next
  case (Cons x_word rest)
  from Cons.prems obtain b where b: "any_agree i j x_word ys = Inr b"
    by (auto split: sum.splits)
  then have s: "b = has_support i j ys x_word" by (rule any_agree_Inr)
  show ?case
  proof (cases b)
    case True
    with Cons.prems b have "revise_loop doms y i j rest (acc, r) = Inr (rem, r')"
      by simp
    from Cons.IH [OF this Cons.prems(2)] True s show ?thesis by simp
  next
    case False
    with Cons.prems b
    have "revise_loop doms y i j rest (acc @ [x_word], True) = Inr (rem, r')"
      by simp
    from Cons.IH [OF this Cons.prems(2)] False s show ?thesis by auto
  qed
qed

lemma revise_loop_in_range:
  "map_of doms y = Some ys \<Longrightarrow> \<forall>w\<in>set xs. i < length w \<Longrightarrow> \<forall>w'\<in>set ys. j < length w'
     \<Longrightarrow> \<exists>res. revise_loop doms y i j xs (acc, r) = Inr res"
  by (induction xs arbitrary: acc r) (auto simp: any_agree_in_range)

lemma revise_Inr:
  assumes "revise cw doms x y = (Inr r, doms')"
    and "overlaps cw (x, y) = Some (Some (i, j))"
    and "map_of doms y = Some ys"
  shows "\<exists>xs. map_of doms x = Some xs \<and>
           doms' = AList.update x (filter (has_support i j ys) xs) doms \<and>
           r = (\<exists>w\<in>set xs. \<not> has_support i j ys w)"
proof -
  from assms(1,2) obtain xs rem where
    x: "map_of doms x = Some xs" and
    l: "revise_loop doms y i j xs ([], False) = Inr (rem, r)" and
    d: "doms' = AList.update x (difference_update xs rem) doms"
    by (auto simp: revise_def split: option.splits sum.splits prod.splits)
  from revise_loop_Inr [OF l assms(3)]
  have "rem = filter (\<lambda>w. \<not> has_support i j ys w) xs"
    and "r = (\<exists>w\<in>set xs. \<not> has_support i j ys w)"
    by simp_all
  with x d show ?thesis
    by (simp add: difference_update_filter)
qed

lemma revise_no_overlap:
  "overlaps cw (x, y) = Some None \<Longrightarrow> revise cw doms x y = (Inr False, doms)"
  by (simp add: revise_def)

lemma revise_shape:
  "revise cw doms x y = (res, doms') \<Longrightarrow>
     doms' = doms \<or>
     (\<exists>xs rem. map_of doms x = Some xs \<and> doms' = AList.update x (difference_update xs rem) doms)"
  by (auto simp: revise_def split: option.splits sum.splits prod.splits)

lemma update_same: "map_of al k = Some v \<Longrightarrow> AList.update k v al = al"
  by (induction al) auto

lemma revise_in_range:
  assumes "overlaps cw (x, y) = Some (Some (i, j))"
    and "map_of doms x = Some xs" and "map_of doms y = Some ys"
    and "\<forall>w\<in>set xs. i < length w" and "\<forall>w\<in>set ys. j < length w"
  shows "\<exists>r doms'. revise cw doms x y = (Inr r, doms')"
proof -
  from revise_loop_in_range [OF assms(3,4,5)]
  obtain res where "revise_loop doms y i j xs ([], False) = Inr res"
    by blast
  with assms(1,2) show ?thesis
    by (cases res) (simp add: revise_def)
qed

lemma revise_False_same:
  assumes "revise cw doms x y = (Inr False, doms')"
  shows "doms' = doms"
proof -
  from revise_shape [OF assms] show ?thesis
  proof
    assume "doms' = doms" then show ?thesis .
  next
    assume "\<exists>xs rem. map_of doms x = Some xs \<and>
              doms' = AList.update x (difference_update xs rem) doms"
    from assms show ?thesis
    proof (cases "overlaps cw (x, y)")
      case None
      with assms show ?thesis by (simp add: revise_def)
    next
      case (Some ov)
      show ?thesis
      proof (cases ov)
        case None
        with Some assms show ?thesis by (simp add: revise_def)
      next
        case (Some p)
        obtain i j where p: "p = (i, j)" by (cases p)
        from assms \<open>overlaps cw (x, y) = Some ov\<close> Some p obtain xs rem where
          x: "map_of doms x = Some xs" and
          l: "revise_loop doms y i j xs ([], False) = Inr (rem, False)" and
          d: "doms' = AList.update x (difference_update xs rem) doms"
          by (auto simp: revise_def split: option.splits sum.splits prod.splits)
        from revise_loop_acc [OF l] have "rem = []" by auto
        with x d show ?thesis
          by (simp add: difference_update_def update_same)
      qed
    qed
  qed
qed

lemma revise_True_nonempty:
  assumes "revise cw doms x y = (Inr True, doms')"
  shows "\<exists>xs. map_of doms x = Some xs \<and> xs \<noteq> []"
proof -
  from assms obtain i j xs rem where
    x: "map_of doms x = Some xs" and
    l: "revise_loop doms y i j xs ([], False) = Inr (rem, True)"
    by (auto simp: revise_def split: option.splits sum.splits prod.splits)
  from revise_loop_acc [OF l] have "rem \<noteq> []" "set rem \<subseteq> set xs" by auto
  then have "xs \<noteq> []" by (cases rem) auto
  with x show ?thesis by simp
qed

text \<open>
  Claim C6. For variables \<open>x\<close> and \<open>y\<close> that cross at positions \<open>(i, j)\<close>, with the words
  of both domains long enough for these positions, \<open>revise\<close> keeps in the domain of \<open>x\<close>
  exactly the words that agree with some word of the domain of \<open>y\<close>, leaves every other
  domain and the keys of the store unchanged, and returns true if and only if it removed
  a word. For a pair that does not cross it returns false and changes nothing.
\<close>

theorem revise_removes_unsupported:
  assumes "map_of doms x = Some xs" and "map_of doms y = Some ys"
  shows "(overlaps cw (x, y) = Some None \<longrightarrow> revise cw doms x y = (Inr False, doms)) \<and>
         (\<forall>i j. overlaps cw (x, y) = Some (Some (i, j)) \<and>
                (\<forall>w\<in>set xs. i < length w) \<and> (\<forall>w\<in>set ys. j < length w) \<longrightarrow>
            (\<exists>revised doms'.
               revise cw doms x y = (Inr revised, doms') \<and>
               map_of doms' x = Some (filter (\<lambda>w. \<exists>w'\<in>set ys. w ! i = w' ! j) xs) \<and>
               (\<forall>z. z \<noteq> x \<longrightarrow> map_of doms' z = map_of doms z) \<and>
               map fst doms' = map fst doms \<and>
               (revised \<longleftrightarrow> (\<exists>w\<in>set xs. \<not> (\<exists>w'\<in>set ys. w ! i = w' ! j)))))"
proof (intro conjI allI impI)
  assume "overlaps cw (x, y) = Some None"
  then show "revise cw doms x y = (Inr False, doms)" by (rule revise_no_overlap)
next
  fix i j
  assume a: "overlaps cw (x, y) = Some (Some (i, j)) \<and>
             (\<forall>w\<in>set xs. i < length w) \<and> (\<forall>w\<in>set ys. j < length w)"
  then have ov: "overlaps cw (x, y) = Some (Some (i, j))"
    and rx: "\<forall>w\<in>set xs. i < length w" and ry: "\<forall>w\<in>set ys. j < length w"
    by simp_all
  from revise_in_range [OF ov assms rx ry]
  obtain r doms' where r: "revise cw doms x y = (Inr r, doms')"
    by blast
  from revise_Inr [OF r ov assms(2)] assms(1)
  have d: "doms' = AList.update x (filter (has_support i j ys) xs) doms"
    and rr: "r = (\<exists>w\<in>set xs. \<not> has_support i j ys w)"
    by simp_all
  have hs: "has_support i j ys w = (\<exists>w'\<in>set ys. w ! i = w' ! j)" if "w \<in> set xs" for w
    using that rx ry by (auto simp: has_support_def agree_def list_ex_iff)
  have f: "filter (has_support i j ys) xs = filter (\<lambda>w. \<exists>w'\<in>set ys. w ! i = w' ! j) xs"
    by (rule filter_cong) (simp_all add: hs)
  have k: "x \<in> set (map fst doms)"
    using assms(1) by (metis map_of_eq_None_iff option.distinct(1) set_map)
  show "\<exists>revised doms'.
          revise cw doms x y = (Inr revised, doms') \<and>
          map_of doms' x = Some (filter (\<lambda>w. \<exists>w'\<in>set ys. w ! i = w' ! j) xs) \<and>
          (\<forall>z. z \<noteq> x \<longrightarrow> map_of doms' z = map_of doms z) \<and>
          map fst doms' = map fst doms \<and>
          (revised \<longleftrightarrow> (\<exists>w\<in>set xs. \<not> (\<exists>w'\<in>set ys. w ! i = w' ! j)))"
    using r d rr f hs k by (auto simp: update_conv' update_keys)
qed

subsection \<open>Domains only shrink\<close>

lemma shrunk_refl: "shrunk doms doms v"
  by (simp add: shrunk_def split: option.splits)

lemma shrunk_trans: "shrunk a b v \<Longrightarrow> shrunk b c v \<Longrightarrow> shrunk a c v"
  by (auto simp: shrunk_def split: option.splits)

lemma shrunk_update:
  "map_of doms x = Some xs \<Longrightarrow> shrunk doms (AList.update x (difference_update xs rem) doms) v"
  by (auto simp: shrunk_def update_conv' difference_update_def split: option.splits)

lemma shrunkD:
  "shrunk doms doms' v \<Longrightarrow> map_of doms v = Some ws
     \<Longrightarrow> \<exists>ws'. map_of doms' v = Some ws' \<and> set ws' \<subseteq> set ws \<and> length ws' \<le> length ws"
  by (cases "map_of doms' v") (simp_all add: shrunk_def)

lemma shrunk_revise: "shrunk doms (snd (revise cw doms x y)) v"
proof -
  obtain res doms' where r: "revise cw doms x y = (res, doms')"
    by (cases "revise cw doms x y")
  from revise_shape [OF r] r show ?thesis
    by (auto simp: shrunk_refl shrunk_update)
qed

lemma shrunk_ac3_loop: "shrunk doms (snd (ac3_loop cw doms queue)) v"
proof (induction cw doms queue rule: ac3_loop.induct)
  case (1 cw doms)
  show ?case by (simp add: shrunk_refl)
next
  case (2 cw doms x y queue)
  obtain res doms' where r: "revise cw doms x y = (res, doms')"
    by (cases "revise cw doms x y")
  have s: "shrunk doms doms' v"
    using shrunk_revise [of doms cw x y v] r by simp
  show ?case
  proof (cases res)
    case (Inl e)
    with r s show ?thesis by simp
  next
    case (Inr revised)
    show ?thesis
    proof (cases revised)
      case False
      with 2(2) [OF r [symmetric] Inr] have "shrunk doms' (snd (ac3_loop cw doms' queue)) v"
        by simp
      with s r Inr False show ?thesis
        by (auto intro: shrunk_trans)
    next
      case True
      show ?thesis
      proof (cases "map_of doms' x")
        case None
        with r Inr True s show ?thesis by simp
      next
        case (Some x_domain)
        show ?thesis
        proof (cases "x_domain = []")
          case True
          with r Inr \<open>revised\<close> Some s show ?thesis by simp
        next
          case False
          from 2(1) [OF r [symmetric] Inr True Some False]
          have "shrunk doms' (snd (ac3_loop cw doms'
                  (queue @ map (\<lambda>z. (z, x)) (filter (\<lambda>z. z \<noteq> y) (neighbors cw x))))) v" .
          with s r Inr True Some False show ?thesis
            by (auto intro: shrunk_trans)
        qed
      qed
    qed
  qed
qed

lemma shrunk_enforce_node_consistency: "shrunk doms (enforce_node_consistency doms) v"
  by (auto simp: shrunk_def map_of_enforce_node_consistency split: option.splits)

text \<open>
  Claim C8. Domains only shrink: node consistency, one call of \<open>revise\<close> and a whole run
  of \<open>ac3\<close> (also one that raises) leave every variable's domain a subset of what it
  was, no longer than before, and add no entry to the store.
\<close>

theorem domains_only_shrink:
  "shrunk doms (enforce_node_consistency doms) v \<and>
   shrunk doms (snd (revise cw doms x y)) v \<and>
   shrunk doms (snd (ac3 cw doms arcs)) v"
  by (simp add: shrunk_enforce_node_consistency shrunk_revise shrunk_ac3_loop ac3_def)

subsection \<open>The fixed point of ac3\<close>

lemma set_initial_arcs:
  "set (initial_arcs cw) =
     {(x, y). x \<in> set (variables cw) \<and> y \<in> set (variables cw) \<and> y \<noteq> x \<and> crossing cw x y}"
  by (auto simp: initial_arcs_def neighbors_def)

lemma crossing_iff: "crossing cw x y \<longleftrightarrow> (\<exists>i j. overlaps cw (x, y) = Some (Some (i, j)))"
  by (auto simp: crossing_def split: option.splits)

lemma wf_crossword_sym:
  "wf_crossword cw \<Longrightarrow> x \<in> set (variables cw) \<Longrightarrow> y \<in> set (variables cw)
     \<Longrightarrow> overlaps cw (x, y) = Some (Some (i, j))
     \<Longrightarrow> overlaps cw (y, x) = Some (Some (j, i)) \<and> i < vlength x \<and> j < vlength y"
  by (fastforce simp: wf_crossword_def)

lemma wf_crossing_sym:
  "wf_crossword cw \<Longrightarrow> x \<in> set (variables cw) \<Longrightarrow> y \<in> set (variables cw)
     \<Longrightarrow> crossing cw x y \<Longrightarrow> crossing cw y x"
  by (auto simp: crossing_iff dest: wf_crossword_sym)

lemma has_support_iff:
  "has_support i j ys w \<longleftrightarrow> (\<exists>w'\<in>set ys. agree i j w w')"
  by (simp add: has_support_def list_ex_iff)

lemma agree_sym: "agree i j w w' \<Longrightarrow> agree j i w' w"
  by (simp add: agree_def)

lemma arc_step:
  assumes wf: "wf_crossword cw"
    and xy: "x \<in> set (variables cw)" "y \<in> set (variables cw)" "x \<noteq> y"
    and ov: "overlaps cw (x, y) = Some (Some (i, j))"
    and dx: "map_of doms x = Some xs" and dy: "map_of doms y = Some ys"
    and d1: "d1 = AList.update x (filter (has_support i j ys) xs) doms"
    and ab: "(a, b) \<in> set (initial_arcs cw)"
    and old: "(a, b) \<noteq> (x, y) \<Longrightarrow> arc_consistent cw doms a b"
    and into: "b = x \<Longrightarrow> a = y"
  shows "arc_consistent cw d1 a b"
proof -
  from ab obtain p q where oab: "overlaps cw (a, b) = Some (Some (p, q))" and "a \<noteq> b"
    by (auto simp: set_initial_arcs crossing_iff)
  have m1: "map_of d1 z = (if z = x then Some (filter (has_support i j ys) xs) else map_of doms z)"
    for z
    by (simp add: d1 update_conv')
  show ?thesis
  proof (cases "(a, b) = (x, y)")
    case True
    with ov dy xy m1 show ?thesis
      by (simp add: arc_consistent_def)
  next
    case False
    from old [OF False] oab obtain as bs where
      a: "map_of doms a = Some as" and b: "map_of doms b = Some bs"
      and s: "\<forall>w\<in>set as. has_support p q bs w"
      by (auto simp: arc_consistent_def split: option.splits)
    show ?thesis
    proof (cases "b = x")
      case bx: True
      with into have ay: "a = y" by simp
      from wf_crossword_sym [OF wf xy(1,2) ov] oab bx ay have pq: "p = j" "q = i"
        by simp_all
      from bx b dx have bs: "bs = xs" by simp
      from ay a dy have as: "as = ys" by simp
      have "has_support j i (filter (has_support i j ys) xs) w'" if w': "w' \<in> set ys" for w'
      proof -
        from s w' as bs pq obtain w where w: "w \<in> set xs" "agree j i w' w"
          by (auto simp: has_support_iff)
        from w(2) have "agree i j w w'" by (rule agree_sym)
        with w' have "has_support i j ys w" by (auto simp: has_support_iff)
        with w show ?thesis by (auto simp: has_support_iff)
      qed
      with oab bx ay xy m1 dy pq show ?thesis
        by (simp add: arc_consistent_def)
    next
      case bnx: False
      show ?thesis
      proof (cases "a = x")
        case True
        with a dx have "as = xs" by simp
        with s oab b bnx True m1 show ?thesis
          by (simp add: arc_consistent_def)
      next
        case False
        with s oab a b bnx m1 show ?thesis
          by (simp add: arc_consistent_def)
      qed
    qed
  qed
qed

lemma has_domainsD:
  "has_domains cw doms \<Longrightarrow> v \<in> set (variables cw) \<Longrightarrow> \<exists>ws. map_of doms v = Some ws"
  by (simp add: has_domains_def)

lemma has_domains_update:
  "has_domains cw doms \<Longrightarrow> has_domains cw (AList.update x ws doms)"
  by (simp add: has_domains_def update_conv')

lemma has_domains_shrunk:
  assumes "has_domains cw d" and "\<And>v. shrunk d d' v"
  shows "has_domains cw d'"
  unfolding has_domains_def
proof
  fix v assume "v \<in> set (variables cw)"
  with assms(1) obtain ws where "map_of d v = Some ws"
    by (auto simp: has_domains_def)
  from shrunkD [OF assms(2) this] show "map_of d' v \<noteq> None" by auto
qed

lemma ac3_loop_arc_consistent:
  shows "wf_crossword cw \<Longrightarrow> has_domains cw doms \<Longrightarrow> set queue \<subseteq> set (initial_arcs cw)
    \<Longrightarrow> (\<And>a b. (a, b) \<in> set (initial_arcs cw) \<Longrightarrow> (a, b) \<notin> set queue
           \<Longrightarrow> arc_consistent cw doms a b)
    \<Longrightarrow> ac3_loop cw doms queue = (Inr True, doms')
    \<Longrightarrow> (a, b) \<in> set (initial_arcs cw) \<Longrightarrow> arc_consistent cw doms' a b"
proof (induction cw doms queue arbitrary: a b rule: ac3_loop.induct)
  case (1 cw doms)
  then show ?case by simp
next
  case (2 cw doms x y queue)
  note wf = "2.prems"(1)
  from "2.prems"(3) have xyA: "(x, y) \<in> set (initial_arcs cw)" by simp
  then have xy: "x \<in> set (variables cw)" "y \<in> set (variables cw)" "x \<noteq> y"
    and cr: "crossing cw x y"
    by (auto simp: set_initial_arcs)
  from cr obtain i j where ov: "overlaps cw (x, y) = Some (Some (i, j))"
    by (auto simp: crossing_iff)
  from has_domainsD [OF "2.prems"(2) xy(1)] obtain xs where dx: "map_of doms x = Some xs" ..
  from has_domainsD [OF "2.prems"(2) xy(2)] obtain ys where dy: "map_of doms y = Some ys" ..
  obtain res d1 where r: "revise cw doms x y = (res, d1)"
    by (cases "revise cw doms x y")
  with "2.prems"(5) obtain revised where res: "res = Inr revised"
    by (cases res) auto
  from revise_Inr [OF r [unfolded res] ov dy] dx
  have d1: "d1 = AList.update x (filter (has_support i j ys) xs) doms"
    and rv: "revised = (\<exists>w\<in>set xs. \<not> has_support i j ys w)"
    by simp_all
  have hd1: "has_domains cw d1"
    using "2.prems"(2) d1 by (simp add: has_domains_update)
  have step: "arc_consistent cw d1 a' b'"
    if "(a', b') \<in> set (initial_arcs cw)"
      and "(a', b') \<noteq> (x, y) \<Longrightarrow> arc_consistent cw doms a' b'"
      and "b' = x \<Longrightarrow> a' = y" for a' b'
    using arc_step [OF wf xy ov dx dy d1 that] .
  show ?case
  proof (cases revised)
    case False
    with "2.prems"(5) r res have l: "ac3_loop cw d1 queue = (Inr True, doms')"
      by simp
    from False rv have "filter (has_support i j ys) xs = xs"
      by simp
    with d1 dx have dd: "d1 = doms" by (simp add: update_same)
    have inv: "arc_consistent cw d1 a' b'"
      if ab: "(a', b') \<in> set (initial_arcs cw)" and nq: "(a', b') \<notin> set queue" for a' b'
    proof (cases "(a', b') = (x, y)")
      case True
      with False rv ov dx dy dd show ?thesis
        by (simp add: arc_consistent_def)
    next
      case False
      with nq have "(a', b') \<notin> set ((x, y) # queue)" by simp
      from "2.prems"(4) [OF ab this] dd show ?thesis by simp
    qed
    from "2.prems"(3) have q: "set queue \<subseteq> set (initial_arcs cw)" by simp
    from "2.IH"(2) [OF r [symmetric] res False wf hd1 q inv l "2.prems"(6)]
    show ?thesis .
  next
    case True
    from d1 have m1: "map_of d1 x = Some (filter (has_support i j ys) xs)"
      by (simp add: update_conv')
    let ?q = "queue @ map (\<lambda>z. (z, x)) (filter (\<lambda>z. z \<noteq> y) (neighbors cw x))"
    from "2.prems"(5) r res True m1
    have ne: "filter (has_support i j ys) xs \<noteq> []"
      and l: "ac3_loop cw d1 ?q = (Inr True, doms')"
      by (auto split: if_splits)
    have q: "set ?q \<subseteq> set (initial_arcs cw)"
      using "2.prems"(3) xy wf
      by (auto simp: set_initial_arcs neighbors_def dest: wf_crossing_sym)
    have inv: "arc_consistent cw d1 a' b'"
      if ab: "(a', b') \<in> set (initial_arcs cw)" and nq: "(a', b') \<notin> set ?q" for a' b'
    proof (rule step [OF ab])
      assume "(a', b') \<noteq> (x, y)"
      with nq have "(a', b') \<notin> set ((x, y) # queue)" by simp
      from "2.prems"(4) [OF ab this] show "arc_consistent cw doms a' b'" .
    next
      assume bx: "b' = x"
      show "a' = y"
      proof (rule ccontr)
        assume "a' \<noteq> y"
        moreover from ab bx xy wf have "a' \<in> set (neighbors cw x)"
          by (auto simp: set_initial_arcs neighbors_def dest: wf_crossing_sym)
        ultimately have "(a', b') \<in> set ?q" using bx by simp
        with nq show False by simp
      qed
    qed
    from "2.IH"(1) [OF r [symmetric] res True m1 ne wf hd1 q inv l "2.prems"(6)]
    show ?thesis .
  qed
qed

text \<open>
  Claim C5. When \<open>ac3\<close> returns true on the initial arcs, every arc \<open>(x, y)\<close> with \<open>y\<close> a
  neighbour of \<open>x\<close> is consistent: every word left in the domain of \<open>x\<close> agrees, at the
  overlap positions, with some word left in the domain of \<open>y\<close>.
\<close>

theorem ac3_success_arc_consistent:
  assumes "wf_crossword cw" and "has_domains cw doms"
    and "ac3 cw doms None = (Inr True, doms')"
    and "x \<in> set (variables cw)" and "y \<in> set (neighbors cw x)"
  shows "\<exists>i j xs ys. overlaps cw (x, y) = Some (Some (i, j)) \<and>
           map_of doms' x = Some xs \<and> map_of doms' y = Some ys \<and>
           (\<forall>w\<in>set xs. \<exists>w'\<in>set ys. i < length w \<and> j < length w' \<and> w ! i = w' ! j)"
proof -
  from assms(4,5) have xy: "(x, y) \<in> set (initial_arcs cw)"
    by (auto simp: initial_arcs_def)
  from assms(3) have l: "ac3_loop cw doms (initial_arcs cw) = (Inr True, doms')"
    by (simp add: ac3_def)
  have "arc_consistent cw doms' x y"
    by (rule ac3_loop_arc_consistent [OF assms(1,2) subset_refl _ l xy]) simp
  moreover from xy obtain i j where "overlaps cw (x, y) = Some (Some (i, j))"
    by (auto simp: set_initial_arcs crossing_iff)
  ultimately show ?thesis
    by (auto simp: arc_consistent_def has_support_iff agree_def split: option.splits)
qed

lemma node_consistent_shrunk:
  assumes "node_consistent cw doms" and "\<And>v. shrunk doms doms' v"
  shows "node_consistent cw doms'"
  unfolding node_consistent_def
proof
  fix v assume "v \<in> set (variables cw)"
  with assms(1) obtain ws where
    ws: "map_of doms v = Some ws" "\<forall>w\<in>set ws. length w = vlength v"
    by (auto simp: node_consistent_def split: option.splits)
  from shrunkD [OF assms(2) ws(1)] obtain ws' where
    "map_of doms' v = Some ws'" "set ws' \<subseteq> set ws"
    by blast
  with ws(2) show "case map_of doms' v of None \<Rightarrow> False
                   | Some ws \<Rightarrow> \<forall>w\<in>set ws. length w = vlength v"
    by auto
qed

lemma node_consistent_has_domains: "node_consistent cw doms \<Longrightarrow> has_domains cw doms"
  by (auto simp: node_consistent_def has_domains_def split: option.splits)

lemma node_consistentD:
  "node_consistent cw doms \<Longrightarrow> v \<in> set (variables cw)
     \<Longrightarrow> \<exists>ws. map_of doms v = Some ws \<and> (\<forall>w\<in>set ws. length w = vlength v)"
  unfolding node_consistent_def by (cases "map_of doms v") force+

lemma revise_arc_consistent:
  assumes wf: "wf_crossword cw" and nc: "node_consistent cw doms"
    and xy: "(x, y) \<in> set (initial_arcs cw)"
    and ac: "arc_consistent cw doms x y"
  shows "revise cw doms x y = (Inr False, doms)"
proof -
  from xy have v: "x \<in> set (variables cw)" "y \<in> set (variables cw)"
    by (auto simp: set_initial_arcs)
  from xy obtain i j where ov: "overlaps cw (x, y) = Some (Some (i, j))"
    by (auto simp: set_initial_arcs crossing_iff)
  from wf_crossword_sym [OF wf v ov] have ij: "i < vlength x" "j < vlength y"
    by simp_all
  from node_consistentD [OF nc v(1)] obtain xs where
    dx: "map_of doms x = Some xs" and lx: "\<forall>w\<in>set xs. length w = vlength x"
    by blast
  from node_consistentD [OF nc v(2)] obtain ys where
    dy: "map_of doms y = Some ys" and ly: "\<forall>w\<in>set ys. length w = vlength y"
    by blast
  from lx ly ij have "\<forall>w\<in>set xs. i < length w" "\<forall>w\<in>set ys. j < length w"
    by simp_all
  from revise_in_range [OF ov dx dy this] obtain r d1 where
    r: "revise cw doms x y = (Inr r, d1)"
    by blast
  from ac ov dx dy have all: "\<forall>w\<in>set xs. has_support i j ys w"
    by (simp add: arc_consistent_def)
  then have "filter (has_support i j ys) xs = xs" by simp
  with revise_Inr [OF r ov dy] dx all have "r = False" "d1 = doms"
    by (simp_all add: update_same)
  with r show ?thesis by simp
qed

lemma ac3_loop_fixed:
  "(\<And>x y. (x, y) \<in> set queue \<Longrightarrow> revise cw doms x y = (Inr False, doms))
     \<Longrightarrow> ac3_loop cw doms queue = (Inr True, doms)"
proof (induction queue)
  case Nil
  show ?case by simp
next
  case (Cons a queue)
  obtain x y where a: "a = (x, y)" by (cases a)
  from Cons.prems [of x y] a have "revise cw doms x y = (Inr False, doms)" by simp
  moreover have "ac3_loop cw doms queue = (Inr True, doms)"
    by (rule Cons.IH) (simp add: Cons.prems)
  ultimately show ?case using a by simp
qed

text \<open>
  Claim C7. A second run of \<open>ac3\<close> right after a successful one returns true and leaves
  the store as it is; every call of \<open>revise\<close> it makes (one for each initial arc, on the
  unchanged store) returns false.
\<close>

theorem ac3_idempotent:
  assumes "wf_crossword cw" and "node_consistent cw doms"
    and "ac3 cw doms None = (Inr True, doms')"
  shows "ac3 cw doms' None = (Inr True, doms') \<and>
         (\<forall>(x, y)\<in>set (initial_arcs cw). revise cw doms' x y = (Inr False, doms'))"
proof -
  from assms(3) have l: "ac3_loop cw doms (initial_arcs cw) = (Inr True, doms')"
    by (simp add: ac3_def)
  have "shrunk doms doms' v" for v
    using shrunk_ac3_loop [of doms cw "initial_arcs cw" v] l by simp
  with assms(2) have nc: "node_consistent cw doms'"
    by (rule node_consistent_shrunk)
  have r: "revise cw doms' x y = (Inr False, doms')" if xy: "(x, y) \<in> set (initial_arcs cw)"
    for x y
  proof -
    have "arc_consistent cw doms' x y"
      by (rule ac3_loop_arc_consistent
            [OF assms(1) node_consistent_has_domains [OF assms(2)] subset_refl _ l xy]) simp
    with assms(1) nc xy show ?thesis by (rule revise_arc_consistent)
  qed
  then have "ac3_loop cw doms' (initial_arcs cw) = (Inr True, doms')"
    by (rule ac3_loop_fixed)
  with r show ?thesis by (auto simp: ac3_def)
qed

subsection \<open>The search leaves the store and the given assignment alone\<close>

lemma extends_refl: "extends a a"
  by (simp add: extends_def)

lemma extends_trans: "extends a b \<Longrightarrow> extends b c \<Longrightarrow> extends a c"
  by (simp add: extends_def)

lemma extends_update: "map_of a var = None \<Longrightarrow> extends a (AList.update var val a)"
  by (auto simp: extends_def update_conv')

lemma from_domains_refl: "from_domains doms a a"
  by (simp add: from_domains_def)

lemma from_domains_update:
  assumes "map_of doms var = Some ws" and "val \<in> set ws"
    and "extends (AList.update var val a) s"
    and "from_domains doms (AList.update var val a) s"
  shows "from_domains doms a s"
  unfolding from_domains_def
proof (intro allI impI)
  fix v w assume n: "map_of a v = None" and s: "map_of s v = Some w"
  show "\<exists>ws. map_of doms v = Some ws \<and> w \<in> set ws"
  proof (cases "v = var")
    case True
    from assms(3) have "map_of s var = Some val"
      by (simp add: extends_def update_conv')
    with True s assms(1,2) show ?thesis by simp
  next
    case False
    with n have "map_of (AList.update var val a) v = None"
      by (simp add: update_conv')
    with assms(4) s show ?thesis
      by (simp add: from_domains_def)
  qed
qed

lemma order_domain_values_set:
  "order_domain_values cw doms var a = Inr vals
     \<Longrightarrow> \<exists>ws. map_of doms var = Some ws \<and> set vals = set ws"
  by (auto simp: order_domain_values_def Let_def split: option.splits sum.splits)

lemma unassigned_vars_map_of: "var \<in> set (unassigned_vars cw a) \<Longrightarrow> map_of a var = None"
  by (simp add: unassigned_vars_def map_of_eq_None_iff)

lemma backtrack_loop_Nil: "backtrack_loop cw doms h r var [] = (Inr None, doms, h)"
  by (simp add: backtrack_loop.simps)

lemma backtrack_loop_Cons:
  "r < length h \<Longrightarrow>
   backtrack_loop cw doms h r var (val # rest) =
     (case consistent cw (AList.update var val (h ! r)) of
        Inl e \<Rightarrow> (Inl e, doms, h @ [AList.update var val (h ! r)])
      | Inr ok \<Rightarrow>
          if ok then
            (case backtrack cw doms (h @ [AList.update var val (h ! r)]) (length h) of
               (Inl e, doms', h') \<Rightarrow> (Inl e, doms', h')
             | (Inr result, doms', h') \<Rightarrow>
                 if truthy h' result then (Inr result, doms', h')
                 else backtrack_loop cw doms' h' r var rest)
          else backtrack_loop cw doms (h @ [AList.update var val (h ! r)]) r var rest)"
  by (simp add: backtrack_loop.simps alloc_def Let_def split: sum.splits)

lemma backtrack_sound:
  "r < length h \<Longrightarrow> backtrack cw doms h r = (res, d', h') \<Longrightarrow>
     d' = doms \<and> (\<exists>ext. h' = h @ ext) \<and>
     (\<forall>r'. res = Inr (Some r') \<longrightarrow>
        r' < length h' \<and> post cw doms (h ! r) (h' ! r') \<and>
        (r' = r \<or> consistent cw (h' ! r') = Inr True))"
  "r < length h \<Longrightarrow> map_of (h ! r) var = None \<Longrightarrow>
   (\<exists>ws. map_of doms var = Some ws \<and> set vals \<subseteq> set ws) \<Longrightarrow>
   backtrack_loop cw doms h r var vals = (res, d', h') \<Longrightarrow>
     d' = doms \<and> (\<exists>ext. h' = h @ ext) \<and>
     (\<forall>r'. res = Inr (Some r') \<longrightarrow>
        r' < length h' \<and> post cw doms (h ! r) (h' ! r') \<and>
        consistent cw (h' ! r') = Inr True)"
proof (induction cw doms h r and cw doms h r var vals arbitrary: res d' h' and res d' h'
       rule: backtrack_backtrack_loop.induct)
  case (1 cw doms h r)
  show ?case
  proof (cases "assignment_complete cw (h ! r)")
    case True
    with "1.prems" show ?thesis
      by (auto simp: backtrack.simps post_def extends_refl from_domains_refl)
  next
    case nc: False
    show ?thesis
    proof (cases "select_unassigned_variable cw doms (h ! r)")
      case (Inl e)
      with "1.prems" nc show ?thesis
        by (auto simp: backtrack.simps)
    next
      case var: (Inr var)
      show ?thesis
      proof (cases "order_domain_values cw doms var (h ! r)")
        case (Inl e)
        with "1.prems" nc var show ?thesis
          by (auto simp: backtrack.simps)
      next
        case vals: (Inr vals)
        from "1.prems" nc var vals
        have l: "backtrack_loop cw doms h r var vals = (res, d', h')"
          by (simp add: backtrack.simps)
        have v: "map_of (h ! r) var = None"
          using select_unassigned_variable_mem [OF var] by (rule unassigned_vars_map_of)
        from order_domain_values_set [OF vals]
        have d: "\<exists>ws. map_of doms var = Some ws \<and> set vals \<subseteq> set ws"
          by auto
        from "1.prems"(1) have nl: "\<not> length h \<le> r" by simp
        from "1.IH" [OF nl nc var vals "1.prems"(1) v d l] show ?thesis
          by blast
      qed
    qed
  qed
next
  case (2 cw doms h r var)
  then show ?case
    by (auto simp: backtrack_loop_Nil)
next
  case (3 cw doms h r var val rest)
  note valid = "3.prems"(1) and un = "3.prems"(2)
  from "3.prems"(3) obtain ws where
    ws: "map_of doms var = Some ws" "val \<in> set ws" "set rest \<subseteq> set ws"
    by auto
  define a' where "a' = AList.update var val (h ! r)"
  define h2 where "h2 = h @ [a']"
  have nl: "\<not> length h \<le> r" using valid by simp
  have al: "(length h, h @ [h ! r]) = alloc h (h ! r)"
    by (simp add: alloc_def)
  have h2': "h2 = (h @ [h ! r])[length h := AList.update var val ((h @ [h ! r]) ! length h)]"
    by (simp add: h2_def a'_def)
  have new: "h2 ! length h = a'" by (simp add: h2_def)
  have old: "h2 ! r = h ! r" using valid by (simp add: h2_def nth_append)
  have valid2: "r < length h2" "length h < length h2"
    using valid by (simp_all add: h2_def)
  have ea: "extends (h ! r) a'"
    using un by (simp add: a'_def extends_update)
  have rest: "\<exists>ws. map_of doms var = Some ws \<and> set rest \<subseteq> set ws"
    using ws by simp
  note eq = "3.prems"(4) [unfolded backtrack_loop_Cons [OF valid],
      folded a'_def, folded h2_def]
  show ?case
  proof (cases "consistent cw a'")
    case (Inl e)
    with eq show ?thesis by (auto simp: h2_def)
  next
    case (Inr ok)
    then have c2: "consistent cw (h2 ! length h) = Inr ok" by (simp add: new)
    show ?thesis
    proof (cases ok)
      case False
      with eq Inr have l: "backtrack_loop cw doms h2 r var rest = (res, d', h')"
        by simp
      from "3.IH"(3) [OF nl al h2' c2 False valid2(1) _ rest l] un old
      have "d' = doms \<and> (\<exists>ext. h' = h2 @ ext) \<and>
            (\<forall>r'. res = Inr (Some r') \<longrightarrow>
               r' < length h' \<and> post cw doms (h ! r) (h' ! r') \<and>
               consistent cw (h' ! r') = Inr True)"
        by simp
      then show ?thesis by (auto simp: h2_def)
    next
      case True
      obtain res1 d1 h1 where b: "backtrack cw doms h2 (length h) = (res1, d1, h1)"
        by (cases "backtrack cw doms h2 (length h)")
      from "3.IH"(1) [OF nl al h2' c2 True valid2(2) b]
      have d1: "d1 = doms" and "\<exists>ext. h1 = h2 @ ext"
        and r1: "\<And>r'. res1 = Inr (Some r') \<Longrightarrow>
               r' < length h1 \<and> post cw doms a' (h1 ! r') \<and>
               (r' = length h \<or> consistent cw (h1 ! r') = Inr True)"
        by (simp_all add: new)
      then obtain ext where h1: "h1 = h2 @ ext" by blast
      have old1: "h1 ! r = h ! r" "h1 ! length h = a'" "r < length h1"
        using valid by (simp_all add: h1 h2_def nth_append)
      have hh: "\<exists>ext. h1 = h @ ext" by (simp add: h1 h2_def)
      show ?thesis
      proof (cases res1)
        case (Inl e)
        with eq Inr True b d1 hh show ?thesis by auto
      next
        case res1: (Inr result)
        show ?thesis
        proof (cases "truthy h1 result")
          case t: True
          then obtain r' where rr: "result = Some r'"
            by (cases result) (simp_all add: truthy_def)
          from eq Inr True b res1 t have e: "res = Inr result" "d' = d1" "h' = h1"
            by simp_all
          from r1 [of r'] res1 rr have p: "r' < length h1" "post cw doms a' (h1 ! r')"
            and c: "r' = length h \<or> consistent cw (h1 ! r') = Inr True"
            by simp_all
          from c Inr True old1(2) have c': "consistent cw (h1 ! r') = Inr True"
            by auto
          from p(2) have "post cw doms (h ! r) (h1 ! r')"
            unfolding post_def a'_def
            using ea [unfolded a'_def] ws(1,2)
            by (auto intro: extends_trans from_domains_update)
          with e rr p(1) c' d1 hh show ?thesis by auto
        next
          case t: False
          with eq Inr True b res1
          have l: "backtrack_loop cw d1 h1 r var rest = (res, d', h')"
            by simp
          have un1: "map_of (h1 ! r) var = None" using un old1 by simp
          have rest1: "\<exists>ws. map_of d1 var = Some ws \<and> set rest \<subseteq> set ws"
            using rest d1 by simp
          from "3.IH"(2) [OF nl al h2' c2 True b [symmetric] res1 refl t old1(3) un1 rest1 l]
            old1 d1 hh
          show ?thesis by (auto simp: )
        qed
      qed
    qed
  qed
qed

lemma backtrack_domains:
  "fst (snd (backtrack cw doms h r)) = doms"
  "fst (snd (backtrack_loop cw doms h r var vals)) = doms"
proof (induction cw doms h r and cw doms h r var vals rule: backtrack_backtrack_loop.induct)
  case (1 cw doms h r)
  then show ?case
    by (auto simp: backtrack.simps split: sum.splits)
next
  case (2 cw doms h r var)
  show ?case by (simp add: backtrack_loop_Nil)
next
  case (3 cw doms h r var val rest)
  show ?case
  proof (cases "r < length h")
    case False
    then show ?thesis by (simp add: backtrack_loop.simps)
  next
    case valid: True
    then have nl: "\<not> length h \<le> r" by simp
    define h2 where "h2 = h @ [AList.update var val (h ! r)]"
    have al: "(length h, h @ [h ! r]) = alloc h (h ! r)"
      by (simp add: alloc_def)
    have h2': "h2 = (h @ [h ! r])[length h := AList.update var val ((h @ [h ! r]) ! length h)]"
      by (simp add: h2_def)
    have new: "h2 ! length h = AList.update var val (h ! r)" by (simp add: h2_def)
    note eq = backtrack_loop_Cons [OF valid, of cw doms var val rest, folded h2_def]
    show ?thesis
    proof (cases "consistent cw (AList.update var val (h ! r))")
      case (Inl e)
      with eq show ?thesis by simp
    next
      case (Inr ok)
      then have c2: "consistent cw (h2 ! length h) = Inr ok" by (simp add: new)
      show ?thesis
      proof (cases ok)
        case False
        from "3.IH"(3) [OF nl al h2' c2 False] eq Inr False show ?thesis by simp
      next
        case True
        obtain res1 d1 h1 where b: "backtrack cw doms h2 (length h) = (res1, d1, h1)"
          by (cases "backtrack cw doms h2 (length h)")
        from "3.IH"(1) [OF nl al h2' c2 True] b have d1: "d1 = doms" by simp
        show ?thesis
        proof (cases res1)
          case (Inl e)
          with eq Inr True b d1 show ?thesis by simp
        next
          case res1: (Inr result)
          show ?thesis
          proof (cases "truthy h1 result")
            case t: True
            with eq Inr True b d1 res1 show ?thesis by simp
          next
            case t: False
            from "3.IH"(2) [OF nl al h2' c2 True b [symmetric] res1 refl t]
              eq Inr True b d1 res1 t
            show ?thesis by simp
          qed
        qed
      qed
    qed
  qed
qed

text \<open>
  Claim C9. The backtracking search never changes the domain store: whatever \<open>backtrack\<close>
  returns (an assignment, the failure value or an exception), the store it leaves is the
  store it was called with. \<open>select_unassigned_variable\<close>, \<open>order_domain_values\<close> and
  \<open>consistent\<close> only read the store; only the heap of assignments grows.
\<close>

theorem backtrack_keeps_domains:
  "fst (snd (backtrack cw doms h assignment)) = doms"
  by (rule backtrack_domains(1))

text \<open>
  Claim C10. \<open>backtrack\<close> does not modify the assignment it is given, nor any other
  object that existed before the call (every extension is made on a fresh copy), and an
  assignment it returns binds every variable the given assignment binds, to the same word.
\<close>

theorem backtrack_keeps_assignment:
  assumes "assignment < length h"
    and "backtrack cw doms h assignment = (res, doms', h')"
  shows "take (length h) h' = h \<and> h' ! assignment = h ! assignment \<and>
         (\<forall>result. res = Inr (Some result) \<longrightarrow>
            result < length h' \<and>
            (\<forall>var word. map_of (h ! assignment) var = Some word
               \<longrightarrow> map_of (h' ! result) var = Some word))"
proof -
  from backtrack_sound(1) [OF assms] obtain ext where
    e: "h' = h @ ext" and
    r: "\<And>r'. res = Inr (Some r') \<Longrightarrow>
          r' < length h' \<and> post cw doms (h ! assignment) (h' ! r')"
    by blast
  from e assms(1) have "take (length h) h' = h" "h' ! assignment = h ! assignment"
    by (simp_all add: nth_append)
  with r show ?thesis
    by (auto simp: post_def extends_def)
qed

subsection \<open>What solve returns\<close>

lemma consistent_values_iff:
  "consistent_values a acc \<longleftrightarrow>
     (\<forall>(v, w)\<in>set a. vlength v = length w) \<and> distinct (map snd a) \<and>
     set (map snd a) \<inter> set acc = {}"
  by (induction a acc rule: consistent_values.induct) auto

lemma consistent_neighbors_True:
  "consistent_neighbors cw a var1 nbrs = Inr True \<Longrightarrow> var2 \<in> set nbrs
     \<Longrightarrow> map_of a var2 = Some word2 \<Longrightarrow> overlaps cw (var1, var2) = Some (Some (i, j))
     \<Longrightarrow> \<exists>word1. map_of a var1 = Some word1 \<and> i < length word1 \<and> j < length word2 \<and>
           word1 ! i = word2 ! j"
  by (induction nbrs) (auto split: option.splits if_splits)

lemma consistent_overlaps_True:
  "consistent_overlaps cw a vars = Inr True \<Longrightarrow> var1 \<in> set vars
     \<Longrightarrow> consistent_neighbors cw a var1 (neighbors cw var1) = Inr True"
  by (induction vars) (auto split: sum.splits if_splits)

lemma consistent_True:
  assumes "consistent cw a = Inr True"
  shows "(\<forall>(v, w)\<in>set a. vlength v = length w)"
    and "distinct (map snd a)"
    and "\<And>x y wx wy i j. map_of a x = Some wx \<Longrightarrow> map_of a y = Some wy
           \<Longrightarrow> y \<in> set (neighbors cw x) \<Longrightarrow> overlaps cw (x, y) = Some (Some (i, j))
           \<Longrightarrow> i < length wx \<and> j < length wy \<and> wx ! i = wy ! j"
proof -
  from assms have v: "consistent_values a []"
    and o: "consistent_overlaps cw a (map fst a) = Inr True"
    by (auto simp: consistent_def split: if_splits)
  from v show "(\<forall>(v, w)\<in>set a. vlength v = length w)" "distinct (map snd a)"
    by (simp_all add: consistent_values_iff)
  fix x y wx wy i j
  assume x: "map_of a x = Some wx" and y: "map_of a y = Some wy"
    and n: "y \<in> set (neighbors cw x)" and ov: "overlaps cw (x, y) = Some (Some (i, j))"
  from x have "x \<in> set (map fst a)"
    by (metis map_of_eq_None_iff option.distinct(1) set_map)
  from consistent_overlaps_True [OF o this]
  have "consistent_neighbors cw a x (neighbors cw x) = Inr True" .
  from consistent_neighbors_True [OF this n y ov] x
  show "i < length wx \<and> j < length wy \<and> wx ! i = wy ! j"
    by simp
qed

text \<open>
  Claim C2. An assignment returned by \<open>solve\<close> is complete and consistent: it binds
  exactly the variables of the puzzle, no word occurs twice, every word has its
  variable's length, and any two crossing variables agree at their overlap positions.
\<close>

theorem solve_result_consistent:
  assumes "fst (solve cw doms h) = (Inr (Some result), doms', h')"
  shows "result < length h' \<and>
         set (map fst (h' ! result)) = set (variables cw) \<and>
         distinct (map snd (h' ! result)) \<and>
         (\<forall>(var, word)\<in>set (h' ! result). length word = vlength var) \<and>
         (\<forall>x y wx wy i j.
            map_of (h' ! result) x = Some wx \<and> map_of (h' ! result) y = Some wy \<and>
            x \<noteq> y \<and> overlaps cw (x, y) = Some (Some (i, j))
            \<longrightarrow> i < length wx \<and> j < length wy \<and> wx ! i = wy ! j)"
proof -
  from assms obtain ok doms2 where
    b: "backtrack cw doms2 (h @ [[]]) (length h) = (Inr (Some result), doms', h')"
    by (auto simp: solve_def Let_def split: prod.splits sum.splits)
  have valid: "length h < length (h @ [[]])" by simp
  from backtrack_sound(1) [OF valid b]
  have r: "result < length h'" and p: "post cw doms2 [] (h' ! result)"
    and c: "result = length h \<or> consistent cw (h' ! result) = Inr True"
    and "\<exists>ext. h' = (h @ [[]]) @ ext"
    by simp_all
  then obtain ext where "h' = (h @ [[]]) @ ext" by blast
  then have e: "h' ! length h = []" by (simp add: nth_append)
  from p have k: "set (map fst (h' ! result)) = set (variables cw)"
    by (simp add: post_def assignment_complete_def)
  show ?thesis
  proof (cases "h' ! result = []")
    case True
    with r k show ?thesis by simp
  next
    case False
    with c e have ct: "consistent cw (h' ! result) = Inr True" by auto
    have "i < length wx \<and> j < length wy \<and> wx ! i = wy ! j"
      if x: "map_of (h' ! result) x = Some wx" and y: "map_of (h' ! result) y = Some wy"
        and ne: "x \<noteq> y" and ov: "overlaps cw (x, y) = Some (Some (i, j))" for x y wx wy i j
    proof -
      from y have "y \<in> set (map fst (h' ! result))"
        by (metis map_of_eq_None_iff option.distinct(1) set_map)
      with k ne ov have "y \<in> set (neighbors cw x)"
        by (simp add: neighbors_def crossing_def)
      from consistent_True(3) [OF ct x y this ov] show ?thesis .
    qed
    with r k consistent_True(1,2) [OF ct] show ?thesis
      by (auto simp: )
  qed
qed

subsection \<open>Failure of ac3\<close>

lemma ac3_loop_unfold:
  "ac3_loop cw doms ((x, y) # queue) = (res, d2) \<Longrightarrow> revise cw doms x y = (r, d1) \<Longrightarrow>
     (case r of
        Inl e \<Rightarrow> res = Inl e \<and> d2 = d1
      | Inr revised \<Rightarrow>
          if revised then
            (case map_of d1 x of
               None \<Rightarrow> res = Inl KeyError \<and> d2 = d1
             | Some xd \<Rightarrow>
                 if xd = [] then res = Inr False \<and> d2 = d1
                 else ac3_loop cw d1
                        (queue @ map (\<lambda>z. (z, x)) (filter (\<lambda>z. z \<noteq> y) (neighbors cw x)))
                      = (res, d2))
          else ac3_loop cw d1 queue = (res, d2))"
  by (auto split: sum.splits option.splits)

lemma ac3_loop_False:
  "ac3_loop cw doms queue = (Inr False, d2) \<Longrightarrow> \<forall>(x, y)\<in>set queue. x \<in> set (variables cw)
     \<Longrightarrow> \<exists>x\<in>set (variables cw). map_of d2 x = Some [] \<and>
           (\<exists>ws. map_of doms x = Some ws \<and> ws \<noteq> [])"
proof (induction cw doms queue rule: ac3_loop.induct)
  case (1 cw doms)
  then show ?case by simp
next
  case (2 cw doms x y queue)
  obtain r d1 where r: "revise cw doms x y = (r, d1)"
    by (cases "revise cw doms x y")
  note u = ac3_loop_unfold [OF "2.prems"(1) r]
  from "2.prems"(2) have xv: "x \<in> set (variables cw)"
    and q: "\<forall>(x, y)\<in>set queue. x \<in> set (variables cw)"
    by auto
  have lift: "\<exists>x\<in>set (variables cw). map_of d2 x = Some [] \<and>
           (\<exists>ws. map_of doms x = Some ws \<and> ws \<noteq> [])"
    if "\<exists>x\<in>set (variables cw). map_of d2 x = Some [] \<and>
           (\<exists>ws. map_of d1 x = Some ws \<and> ws \<noteq> [])"
  proof -
    from that obtain v ws where v: "v \<in> set (variables cw)" "map_of d2 v = Some []"
      "map_of d1 v = Some ws" "ws \<noteq> []"
      by blast
    have "shrunk doms d1 v"
      using shrunk_revise [of doms cw x y v] r by simp
    with v(3) obtain ws0 where "map_of doms v = Some ws0" "length ws \<le> length ws0"
      by (cases "map_of doms v") (auto simp: shrunk_def)
    with v(4) have "map_of doms v = Some ws0" "ws0 \<noteq> []"
      by auto
    with v show ?thesis by blast
  qed
  show ?case
  proof (cases r)
    case (Inl e)
    with u show ?thesis by simp
  next
    case (Inr revised)
    show ?thesis
    proof (cases revised)
      case False
      with u Inr have l: "ac3_loop cw d1 queue = (Inr False, d2)" by simp
      from "2.IH"(2) [OF r [symmetric] Inr False l q] show ?thesis by (rule lift)
    next
      case True
      show ?thesis
      proof (cases "map_of d1 x")
        case None
        with u Inr True show ?thesis by simp
      next
        case (Some xd)
        show ?thesis
        proof (cases "xd = []")
          case e: True
          with u Inr True Some have "d2 = d1" by simp
          moreover from r Inr True have "revise cw doms x y = (Inr True, d1)" by simp
          from revise_True_nonempty [OF this]
          obtain xs where "map_of doms x = Some xs" "xs \<noteq> []" by blast
          ultimately show ?thesis using xv Some e by blast
        next
          case ne: False
          let ?q = "queue @ map (\<lambda>z. (z, x)) (filter (\<lambda>z. z \<noteq> y) (neighbors cw x))"
          from u Inr True Some ne have l: "ac3_loop cw d1 ?q = (Inr False, d2)" by simp
          have q': "\<forall>(x, y)\<in>set ?q. x \<in> set (variables cw)"
            using q by (auto simp: neighbors_def)
          from "2.IH"(1) [OF r [symmetric] Inr True Some ne l q'] show ?thesis by (rule lift)
        qed
      qed
    qed
  qed
qed

lemma ac3_loop_True_nonempty:
  "ac3_loop cw doms queue = (Inr True, d2) \<Longrightarrow> map_of doms v = Some ws \<Longrightarrow> ws \<noteq> []
     \<Longrightarrow> \<exists>ws'. map_of d2 v = Some ws' \<and> ws' \<noteq> []"
proof (induction cw doms queue arbitrary: ws rule: ac3_loop.induct)
  case (1 cw doms)
  then show ?case by simp
next
  case (2 cw doms x y queue)
  obtain r d1 where r: "revise cw doms x y = (r, d1)"
    by (cases "revise cw doms x y")
  note u = ac3_loop_unfold [OF "2.prems"(1) r]
  show ?case
  proof (cases r)
    case (Inl e)
    with u show ?thesis by simp
  next
    case (Inr revised)
    show ?thesis
    proof (cases revised)
      case False
      with u Inr have l: "ac3_loop cw d1 queue = (Inr True, d2)" by simp
      from r Inr False have "revise cw doms x y = (Inr False, d1)" by simp
      then have "d1 = doms" by (rule revise_False_same)
      with "2.IH"(2) [OF r [symmetric] Inr False l] "2.prems"(2,3) show ?thesis by simp
    next
      case True
      show ?thesis
      proof (cases "map_of d1 x")
        case None
        with u Inr True show ?thesis by simp
      next
        case (Some xd)
        show ?thesis
        proof (cases "xd = []")
          case e: True
          with u Inr True Some show ?thesis by simp
        next
          case ne: False
          let ?q = "queue @ map (\<lambda>z. (z, x)) (filter (\<lambda>z. z \<noteq> y) (neighbors cw x))"
          from u Inr True Some ne have l: "ac3_loop cw d1 ?q = (Inr True, d2)" by simp
          have "\<exists>ws1. map_of d1 v = Some ws1 \<and> ws1 \<noteq> []"
          proof (cases "v = x")
            case True
            with Some ne show ?thesis by simp
          next
            case False
            from revise_shape [OF r] False "2.prems"(2,3) show ?thesis
              by (auto simp: update_conv')
          qed
          then obtain ws1 where "map_of d1 v = Some ws1" "ws1 \<noteq> []" by blast
          from "2.IH"(1) [OF r [symmetric] Inr True Some ne l this] show ?thesis .
        qed
      qed
    qed
  qed
qed

lemma select_key_fst:
  "select_key cw doms v = Inr k \<Longrightarrow> \<exists>ws. map_of doms v = Some ws \<and> fst k = int (length ws)"
  by (auto simp: select_key_def split: option.splits)

lemma key_less_trans1: "key_less a b \<Longrightarrow> \<not> key_less a c \<Longrightarrow> \<not> key_less b c"
  by (auto simp: key_less_def)

lemma key_less_trans2: "\<not> key_less a b \<Longrightarrow> \<not> key_less b c \<Longrightarrow> \<not> key_less a c"
  by (auto simp: key_less_def)

lemma key_less_irrefl: "\<not> key_less a a"
  by (simp add: key_less_def)

lemma min_loop_minimal:
  "\<forall>v\<in>set vars. map_of doms v \<noteq> None \<Longrightarrow> select_key cw doms best = Inr k
     \<Longrightarrow> \<exists>var kv. min_loop cw doms (best, k) vars = Inr var \<and> var \<in> set (best # vars) \<and>
           select_key cw doms var = Inr kv \<and>
           (\<forall>v\<in>set (best # vars). \<exists>k'. select_key cw doms v = Inr k' \<and> \<not> key_less k' kv)"
proof (induction vars arbitrary: best k)
  case Nil
  then show ?case by (cases k) (simp add: key_less_irrefl)
next
  case (Cons v vars)
  from Cons.prems(1) obtain kv where kv: "select_key cw doms v = Inr kv"
    by (auto simp: select_key_def)
  from Cons.prems(1) have rest: "\<forall>v\<in>set vars. map_of doms v \<noteq> None" by simp
  show ?case
  proof (cases "key_less kv k")
    case True
    from Cons.IH [OF rest kv] obtain var kvar where
      m: "min_loop cw doms (v, kv) vars = Inr var" "var \<in> set (v # vars)"
         "select_key cw doms var = Inr kvar"
         "\<forall>u\<in>set (v # vars). \<exists>k'. select_key cw doms u = Inr k' \<and> \<not> key_less k' kvar"
      by blast
    from m(4) kv have "\<not> key_less kv kvar" by auto
    with True have "\<not> key_less k kvar" by (rule key_less_trans1)
    with Cons.prems(2)
    have b: "\<exists>k'. select_key cw doms best = Inr k' \<and> \<not> key_less k' kvar"
      by blast
    have "min_loop cw doms (best, k) (v # vars) = Inr var"
      using kv True m(1) by simp
    moreover have "var \<in> set (best # v # vars)"
      using m(2) by simp
    moreover have "\<forall>u\<in>set (best # v # vars).
        \<exists>k'. select_key cw doms u = Inr k' \<and> \<not> key_less k' kvar"
      using b m(4) by simp
    ultimately show ?thesis using m(3) by blast
  next
    case False
    from Cons.IH [OF rest Cons.prems(2)] obtain var kvar where
      m: "min_loop cw doms (best, k) vars = Inr var" "var \<in> set (best # vars)"
         "select_key cw doms var = Inr kvar"
         "\<forall>u\<in>set (best # vars). \<exists>k'. select_key cw doms u = Inr k' \<and> \<not> key_less k' kvar"
      by blast
    from m(4) Cons.prems(2) have "\<not> key_less k kvar" by auto
    with False have "\<not> key_less kv kvar" by (rule key_less_trans2)
    with kv have b: "\<exists>k'. select_key cw doms v = Inr k' \<and> \<not> key_less k' kvar"
      by blast
    have "min_loop cw doms (best, k) (v # vars) = Inr var"
      using kv False m(1) by simp
    moreover have "var \<in> set (best # v # vars)"
      using m(2) by auto
    moreover have "\<forall>u\<in>set (best # v # vars).
        \<exists>k'. select_key cw doms u = Inr k' \<and> \<not> key_less k' kvar"
      using b m(4) by simp
    ultimately show ?thesis using m(3) by blast
  qed
qed

lemma select_unassigned_variable_total:
  assumes "has_domains cw doms" and "unassigned_vars cw a \<noteq> []"
  shows "\<exists>var ws. select_unassigned_variable cw doms a = Inr var \<and>
           var \<in> set (unassigned_vars cw a) \<and> map_of doms var = Some ws \<and>
           (\<forall>v\<in>set (unassigned_vars cw a). \<exists>ws'. map_of doms v = Some ws' \<and>
              length ws \<le> length ws')"
proof -
  from assms(2) obtain best rest where u: "unassigned_vars cw a = best # rest"
    by (cases "unassigned_vars cw a") auto
  have sub: "set (unassigned_vars cw a) \<subseteq> set (variables cw)"
    by (auto simp: unassigned_vars_def)
  with assms(1) u have d: "\<forall>v\<in>set (best # rest). map_of doms v \<noteq> None"
    by (auto simp: has_domains_def)
  then obtain k where k: "select_key cw doms best = Inr k"
    by (auto simp: select_key_def)
  from d have "\<forall>v\<in>set rest. map_of doms v \<noteq> None" by simp
  from min_loop_minimal [OF this k] obtain var kv where
    m: "min_loop cw doms (best, k) rest = Inr var" "var \<in> set (best # rest)"
       "select_key cw doms var = Inr kv"
       "\<forall>v\<in>set (best # rest). \<exists>k'. select_key cw doms v = Inr k' \<and> \<not> key_less k' kv"
    by blast
  from select_key_fst [OF m(3)] obtain ws where
    ws: "map_of doms var = Some ws" "fst kv = int (length ws)"
    by blast
  have "\<exists>ws'. map_of doms v = Some ws' \<and> length ws \<le> length ws'"
    if "v \<in> set (best # rest)" for v
  proof -
    from m(4) that obtain k' where k': "select_key cw doms v = Inr k'" "\<not> key_less k' kv"
      by blast
    from select_key_fst [OF k'(1)] obtain ws' where
      "map_of doms v = Some ws'" "fst k' = int (length ws')"
      by blast
    with k'(2) ws(2) show ?thesis by (auto simp: key_less_def)
  qed
  with u k m(1,2) ws(1) show ?thesis
    by (auto simp: select_unassigned_variable_def)
qed

lemma backtrack_empty_domain:
  assumes hd: "has_domains cw doms" and x: "x \<in> set (variables cw)"
    and e: "map_of doms x = Some []"
  shows "backtrack cw doms (h @ [[]]) (length h) = (Inr None, doms, h @ [[]])"
proof -
  have u: "unassigned_vars cw [] = variables cw"
    by (simp add: unassigned_vars_def)
  with x have ne: "unassigned_vars cw [] \<noteq> []" by auto
  from select_unassigned_variable_total [OF hd ne] u obtain var ws where
    s: "select_unassigned_variable cw doms [] = Inr var" and
    ws: "map_of doms var = Some ws" and
    m: "\<forall>v\<in>set (variables cw). \<exists>ws'. map_of doms v = Some ws' \<and> length ws \<le> length ws'"
    by auto
  from m x e have "ws = []" by auto
  with ws have o: "order_domain_values cw doms var [] = Inr []"
    by (simp add: order_domain_values_def)
  from x have nc: "\<not> assignment_complete cw []"
    by (auto simp: assignment_complete_def)
  from s o nc show ?thesis
    by (simp add: backtrack.simps backtrack_loop_Nil)
qed

text \<open>
  Claim C1, as the code has it. Let \<open>ac3\<close> run on the node-consistent store without raising.
  It returns false exactly when propagation has emptied a domain that was not empty
  before, and then \<open>solve\<close> reports no solution. \<open>solve\<close> ignores the value \<open>ac3\<close>
  returns: it still calls \<open>backtrack\<close>, which selects a variable with an empty domain and
  fails at once.
\<close>

theorem ac3_failure_no_solution:
  assumes "has_domains cw doms"
    and "ac3 cw (enforce_node_consistency doms) None = (Inr ok, doms2)"
  shows "(\<not> ok \<longleftrightarrow>
           (\<exists>v ws. map_of (enforce_node_consistency doms) v = Some ws \<and> ws \<noteq> [] \<and>
                   map_of doms2 v = Some [])) \<and>
         (\<not> ok \<longrightarrow>
            solve cw doms h =
              ((Inr None, doms2, h @ [[]]),
               [Call_enforce_node_consistency, Call_ac3, Call_backtrack]))"
proof -
  let ?d1 = "enforce_node_consistency doms"
  from assms(2) have l: "ac3_loop cw ?d1 (initial_arcs cw) = (Inr ok, doms2)"
    by (simp add: ac3_def)
  have q: "\<forall>(x, y)\<in>set (initial_arcs cw). x \<in> set (variables cw)"
    by (auto simp: set_initial_arcs)
  have hd1: "has_domains cw ?d1"
    using assms(1) shrunk_enforce_node_consistency by (rule has_domains_shrunk)
  have "shrunk ?d1 doms2 v" for v
    using shrunk_ac3_loop [of ?d1 cw "initial_arcs cw" v] l by simp
  with hd1 have hd2: "has_domains cw doms2" by (rule has_domains_shrunk)
  have emptied: "\<exists>x\<in>set (variables cw). map_of doms2 x = Some [] \<and>
           (\<exists>ws. map_of ?d1 x = Some ws \<and> ws \<noteq> [])" if "\<not> ok"
    using l that q by (auto intro: ac3_loop_False)
  have kept: "\<not> (\<exists>v ws. map_of ?d1 v = Some ws \<and> ws \<noteq> [] \<and> map_of doms2 v = Some [])"
    if ok
  proof
    assume "\<exists>v ws. map_of ?d1 v = Some ws \<and> ws \<noteq> [] \<and> map_of doms2 v = Some []"
    then obtain v ws where v: "map_of ?d1 v = Some ws" "ws \<noteq> []" "map_of doms2 v = Some []"
      by blast
    from l that have "ac3_loop cw ?d1 (initial_arcs cw) = (Inr True, doms2)" by simp
    from ac3_loop_True_nonempty [OF this v(1,2)] v(3) show False by simp
  qed
  have "solve cw doms h =
          ((Inr None, doms2, h @ [[]]),
           [Call_enforce_node_consistency, Call_ac3, Call_backtrack])" if "\<not> ok"
  proof -
    from emptied [OF that] obtain x where "x \<in> set (variables cw)" "map_of doms2 x = Some []"
      by blast
    from backtrack_empty_domain [OF hd2 this] assms(2) show ?thesis
      by (simp add: solve_def)
  qed
  with emptied kept show ?thesis by blast
qed

text \<open>
  The claim as stated fails: on the puzzle \<open>two_slots_unsolvable\<close> propagation empties the
  domain of \<open>slot_a\<close> and \<open>ac3\<close> returns false, yet \<open>solve\<close> goes on to call \<open>backtrack\<close>.
\<close>

theorem solve_searches_after_ac3_failure:
  "fst (ac3 two_slots_unsolvable
          (enforce_node_consistency (init_domains two_slots_unsolvable)) None) = Inr False \<and>
   fst (fst (solve two_slots_unsolvable (init_domains two_slots_unsolvable) [])) = Inr None \<and>
   Call_backtrack \<in> set (snd (solve two_slots_unsolvable (init_domains two_slots_unsolvable) []))"
  by code_simp

subsection \<open>Completeness of the search\<close>

lemma consistent_legal: "consistent cw a = Inr True \<Longrightarrow> legal cw a"
  unfolding legal_def
  using consistent_True [of cw a] by blast

lemma consistent_neighbors_total:
  assumes wf: "wf_crossword cw"
    and len: "\<forall>(v, w)\<in>set a. vlength v = length w"
    and v1: "var1 \<in> set (variables cw)" and w1: "map_of a var1 = Some word1"
  shows "set nbrs \<subseteq> set (variables cw) \<Longrightarrow>
    consistent_neighbors cw a var1 nbrs =
      Inr (\<forall>var2\<in>set nbrs. \<forall>word2 i j.
             map_of a var2 = Some word2 \<longrightarrow> overlaps cw (var1, var2) = Some (Some (i, j))
             \<longrightarrow> word1 ! i = word2 ! j)"
proof (induction nbrs)
  case Nil
  show ?case by simp
next
  case (Cons var2 rest)
  from Cons.prems have v2: "var2 \<in> set (variables cw)"
    and r: "set rest \<subseteq> set (variables cw)"
    by simp_all
  note IH = Cons.IH [OF r]
  from map_of_SomeD [OF w1] len have l1: "length word1 = vlength var1"
    by auto
  show ?case
  proof (cases "map_of a var2")
    case None
    with IH show ?thesis by simp
  next
    case (Some word2)
    from map_of_SomeD [OF Some] len have l2: "length word2 = vlength var2"
      by auto
    show ?thesis
    proof (cases "overlaps cw (var1, var2)")
      case None
      with Some IH show ?thesis by simp
    next
      case ov: (Some o1)
      show ?thesis
      proof (cases o1)
        case None
        with ov Some IH show ?thesis by simp
      next
        case (Some p)
        obtain i j where p: "p = (i, j)" by (cases p)
        with ov Some have o: "overlaps cw (var1, var2) = Some (Some (i, j))" by simp
        from wf_crossword_sym [OF wf v1 v2 o] l1 l2
        have "i < length word1" "j < length word2" by simp_all
        with o \<open>map_of a var2 = Some word2\<close> w1 IH show ?thesis
          by auto
      qed
    qed
  qed
qed

lemma consistent_overlaps_total:
  assumes wf: "wf_crossword cw"
    and len: "\<forall>(v, w)\<in>set a. vlength v = length w"
  shows "set vars \<subseteq> set (map fst a) \<Longrightarrow> set vars \<subseteq> set (variables cw) \<Longrightarrow>
    consistent_overlaps cw a vars =
      Inr (\<forall>var1\<in>set vars. \<forall>var2\<in>set (neighbors cw var1). \<forall>word1 word2 i j.
             map_of a var1 = Some word1 \<longrightarrow> map_of a var2 = Some word2 \<longrightarrow>
             overlaps cw (var1, var2) = Some (Some (i, j)) \<longrightarrow> word1 ! i = word2 ! j)"
proof (induction vars)
  case Nil
  show ?case by simp
next
  case (Cons var1 rest)
  from Cons.prems have v1: "var1 \<in> set (variables cw)" and k: "var1 \<in> set (map fst a)"
    and r: "set rest \<subseteq> set (map fst a)" "set rest \<subseteq> set (variables cw)"
    by simp_all
  from k obtain word1 where w1: "map_of a var1 = Some word1"
    by (metis map_of_eq_None_iff not_Some_eq set_map)
  have n: "set (neighbors cw var1) \<subseteq> set (variables cw)"
    by (auto simp: neighbors_def)
  note cn = consistent_neighbors_total [OF wf len v1 w1 n]
  note IH = Cons.IH [OF r]
  show ?case
    using w1 by (simp add: cn IH)
qed

lemma map_of_Some_key: "map_of a x = Some w \<Longrightarrow> x \<in> set (map fst a)"
  by (metis map_of_eq_None_iff option.distinct(1) set_map)

lemma consistent_total:
  assumes "wf_crossword cw" and "set (map fst a) \<subseteq> set (variables cw)"
  shows "consistent cw a = Inr (legal cw a)"
proof (cases "consistent_values a []")
  case False
  then have "\<not> legal cw a"
    by (auto simp: legal_def consistent_values_iff)
  with False show ?thesis
    by (simp add: consistent_def)
next
  case True
  then have len: "\<forall>(v, w)\<in>set a. vlength v = length w" and d: "distinct (map snd a)"
    by (simp_all add: consistent_values_iff)
  let ?A = "\<forall>var1\<in>set (map fst a). \<forall>var2\<in>set (neighbors cw var1). \<forall>word1 word2 i j.
             map_of a var1 = Some word1 \<longrightarrow> map_of a var2 = Some word2 \<longrightarrow>
             overlaps cw (var1, var2) = Some (Some (i, j)) \<longrightarrow> word1 ! i = word2 ! j"
  let ?B = "\<forall>x y wx wy i j.
         map_of a x = Some wx \<longrightarrow> map_of a y = Some wy \<longrightarrow> y \<in> set (neighbors cw x) \<longrightarrow>
         overlaps cw (x, y) = Some (Some (i, j)) \<longrightarrow> wx ! i = wy ! j"
  have "?A = ?B"
  proof
    assume A: ?A
    show ?B
    proof (intro allI impI)
      fix x y wx wy i j
      assume x: "map_of a x = Some wx" and y: "map_of a y = Some wy"
        and n: "y \<in> set (neighbors cw x)" and o: "overlaps cw (x, y) = Some (Some (i, j))"
      from map_of_Some_key [OF x] A n x y o show "wx ! i = wy ! j" by blast
    qed
  next
    assume ?B
    then show ?A by blast
  qed
  with consistent_overlaps_total [OF assms(1) len subset_refl assms(2)] True len d
  show ?thesis
    by (simp add: consistent_def legal_def)
qed

lemma legal_hereditary:
  assumes s: "legal cw s" and d: "distinct (map fst a)" and e: "extends a s"
  shows "legal cw a"
proof -
  have sub: "set a \<subseteq> set s"
  proof
    fix p assume p: "p \<in> set a"
    obtain v w where vw: "p = (v, w)" by (cases p)
    with p d have "map_of a v = Some w" by simp
    with e have "map_of s v = Some w" by (simp add: extends_def)
    with vw show "p \<in> set s" by (auto dest: map_of_SomeD)
  qed
  from s have "inj_on snd (set s)"
    by (simp add: legal_def distinct_map)
  with sub have "inj_on snd (set a)"
    by (rule inj_on_subset [rotated])
  moreover from d have "distinct a"
    by (simp add: distinct_map)
  ultimately have "distinct (map snd a)"
    by (simp add: distinct_map)
  moreover from s sub have "\<forall>(v, w)\<in>set a. vlength v = length w"
    by (auto simp: legal_def)
  moreover have "wx ! i = wy ! j"
    if "map_of a x = Some wx" "map_of a y = Some wy" "y \<in> set (neighbors cw x)"
      "overlaps cw (x, y) = Some (Some (i, j))" for x y wx wy i j
  proof -
    from that(1,2) e have "map_of s x = Some wx" "map_of s y = Some wy"
      by (simp_all add: extends_def)
    with s that(3,4) show ?thesis
      unfolding legal_def by blast
  qed
  ultimately show ?thesis
    unfolding legal_def by blast
qed

lemma count_conflicts_total:
  "i < length val \<Longrightarrow> \<forall>nv\<in>set nd. j < length nv \<Longrightarrow> \<exists>n. count_conflicts i j val nd = Inr n"
  by (induction nd) auto

lemma value_constraint_total:
  assumes wf: "wf_crossword cw" and nc: "node_consistent cw doms"
    and v: "var \<in> set (variables cw)" and l: "length val = vlength var"
  shows "set nbrs \<subseteq> set (variables cw) \<Longrightarrow> \<exists>n. value_constraint cw doms var val nbrs = Inr n"
proof (induction nbrs)
  case Nil
  show ?case by simp
next
  case (Cons nb rest)
  from Cons.prems have nb: "nb \<in> set (variables cw)" and r: "set rest \<subseteq> set (variables cw)"
    by simp_all
  from Cons.IH [OF r] obtain m where m: "value_constraint cw doms var val rest = Inr m" ..
  show ?case
  proof (cases "overlaps cw (var, nb)")
    case None
    with m show ?thesis by simp
  next
    case ov: (Some o1)
    show ?thesis
    proof (cases o1)
      case None
      with ov m show ?thesis by simp
    next
      case (Some p)
      obtain i j where p: "p = (i, j)" by (cases p)
      with ov Some have o: "overlaps cw (var, nb) = Some (Some (i, j))" by simp
      from wf_crossword_sym [OF wf v nb o] l have ij: "i < length val" "j < vlength nb"
        by simp_all
      from node_consistentD [OF nc nb] obtain nd where
        nd: "map_of doms nb = Some nd" "\<forall>w\<in>set nd. length w = vlength nb"
        by blast
      with ij have "\<forall>nv\<in>set nd. j < length nv" by simp
      from count_conflicts_total [OF ij(1) this] obtain n where
        "count_conflicts i j val nd = Inr n" ..
      with o nd(1) m show ?thesis by simp
    qed
  qed
qed

lemma constraints_total:
  assumes "wf_crossword cw" and "node_consistent cw doms"
    and "var \<in> set (variables cw)" and "set nbrs \<subseteq> set (variables cw)"
  shows "\<forall>val\<in>set vals. length val = vlength var
           \<Longrightarrow> \<exists>c. constraints cw doms var nbrs vals = Inr c"
proof (induction vals)
  case Nil
  show ?case by simp
next
  case (Cons val rest)
  from Cons.prems have l: "length val = vlength var"
    and r: "\<forall>val\<in>set rest. length val = vlength var"
    by simp_all
  from value_constraint_total [OF assms(1,2,3) l assms(4)] obtain n where
    "value_constraint cw doms var val nbrs = Inr n" ..
  moreover from Cons.IH [OF r] obtain c where "constraints cw doms var nbrs rest = Inr c" ..
  ultimately show ?case by simp
qed

lemma order_domain_values_total:
  assumes "wf_crossword cw" and "node_consistent cw doms" and "var \<in> set (variables cw)"
  shows "\<exists>vals ws. order_domain_values cw doms var a = Inr vals \<and>
           map_of doms var = Some ws \<and> set vals = set ws"
proof -
  from node_consistentD [OF assms(2,3)] obtain ws where
    ws: "map_of doms var = Some ws" "\<forall>w\<in>set ws. length w = vlength var"
    by blast
  let ?nbrs = "filter (\<lambda>n. n \<notin> set (map fst a)) (neighbors cw var)"
  have "set ?nbrs \<subseteq> set (variables cw)"
    by (auto simp: neighbors_def)
  from constraints_total [OF assms this ws(2)] obtain c where
    "constraints cw doms var ?nbrs ws = Inr c" ..
  with ws(1) show ?thesis
    by (simp add: order_domain_values_def)
qed

lemma solution_update:
  assumes "solution cw doms a s" and "map_of s var = Some val"
  shows "solution cw doms (AList.update var val a) s"
  using assms
  by (auto simp: solution_def extends_def from_domains_def update_conv' split: if_splits)

lemma unassigned_vars_nonempty:
  assumes "set (map fst a) \<subseteq> set (variables cw)" and "\<not> assignment_complete cw a"
  shows "unassigned_vars cw a \<noteq> []"
proof -
  from assms obtain v where "v \<in> set (variables cw)" "v \<notin> set (map fst a)"
    unfolding assignment_complete_def by blast
  then have "v \<in> set (unassigned_vars cw a)"
    by (simp add: unassigned_vars_def)
  then show ?thesis by auto
qed

lemma backtrack_complete:
  "wf_crossword cw \<Longrightarrow> node_consistent cw doms \<Longrightarrow> r < length h \<Longrightarrow>
   distinct (map fst (h ! r)) \<Longrightarrow> set (map fst (h ! r)) \<subseteq> set (variables cw) \<Longrightarrow>
     \<exists>res h'. backtrack cw doms h r = (Inr res, doms, h') \<and>
       (res = None \<longrightarrow> \<not> (\<exists>s. solution cw doms (h ! r) s))"
  "wf_crossword cw \<Longrightarrow> node_consistent cw doms \<Longrightarrow> r < length h \<Longrightarrow>
   distinct (map fst (h ! r)) \<Longrightarrow> set (map fst (h ! r)) \<subseteq> set (variables cw) \<Longrightarrow>
   var \<in> set (unassigned_vars cw (h ! r)) \<Longrightarrow>
   (\<exists>ws. map_of doms var = Some ws \<and> set vals \<subseteq> set ws) \<Longrightarrow>
     \<exists>res h'. backtrack_loop cw doms h r var vals = (Inr res, doms, h') \<and>
       (res = None \<longrightarrow>
          \<not> (\<exists>s. solution cw doms (h ! r) s \<and> (\<exists>val\<in>set vals. map_of s var = Some val)))"
proof (induction cw doms h r and cw doms h r var vals
       rule: backtrack_backtrack_loop.induct)
  case (1 cw doms h r)
  note wf = "1.prems"(1) and nc = "1.prems"(2) and valid = "1.prems"(3)
    and dist = "1.prems"(4) and keys = "1.prems"(5)
  show ?case
  proof (cases "assignment_complete cw (h ! r)")
    case True
    with valid show ?thesis
      by (simp add: backtrack.simps)
  next
    case inc: False
    from unassigned_vars_nonempty [OF keys inc]
      select_unassigned_variable_total [OF node_consistent_has_domains [OF nc]]
    obtain var where var: "select_unassigned_variable cw doms (h ! r) = Inr var"
      and un: "var \<in> set (unassigned_vars cw (h ! r))"
      by blast
    from un have vv: "var \<in> set (variables cw)" and vn: "map_of (h ! r) var = None"
      by (simp_all add: unassigned_vars_def map_of_eq_None_iff)
    from order_domain_values_total [OF wf nc vv] obtain vals ws where
      vals: "order_domain_values cw doms var (h ! r) = Inr vals" and
      ws: "map_of doms var = Some ws" "set vals = set ws"
      by blast
    from valid have nl: "\<not> length h \<le> r" by simp
    from ws have d: "\<exists>ws. map_of doms var = Some ws \<and> set vals \<subseteq> set ws" by auto
    from "1.IH" [OF nl inc var vals wf nc valid dist keys un d]
    obtain res h' where
      l: "backtrack_loop cw doms h r var vals = (Inr res, doms, h')" and
      n: "res = None \<Longrightarrow>
            \<not> (\<exists>s. solution cw doms (h ! r) s \<and> (\<exists>val\<in>set vals. map_of s var = Some val))"
      by blast
    from valid inc var vals l have b: "backtrack cw doms h r = (Inr res, doms, h')"
      by (simp add: backtrack.simps)
    have "\<not> (\<exists>s. solution cw doms (h ! r) s)" if "res = None"
    proof
      assume "\<exists>s. solution cw doms (h ! r) s"
      then obtain s where s: "solution cw doms (h ! r) s" ..
      then have "var \<in> set (map fst s)"
        using vv by (simp add: solution_def assignment_complete_def)
      then obtain w where w: "map_of s var = Some w"
        by (metis map_of_eq_None_iff not_Some_eq set_map)
      from s have "from_domains doms (h ! r) s" by (simp add: solution_def)
      with vn w have "\<exists>ws. map_of doms var = Some ws \<and> w \<in> set ws"
        unfolding from_domains_def by blast
      with ws have "w \<in> set vals" by auto
      with n [OF that] s w show False by blast
    qed
    with b show ?thesis by blast
  qed
next
  case (2 cw doms h r var)
  show ?case by (simp add: backtrack_loop_Nil)
next
  case (3 cw doms h r var val rest)
  note wf = "3.prems"(1) and nc = "3.prems"(2) and valid = "3.prems"(3)
    and dist = "3.prems"(4) and keys = "3.prems"(5) and un = "3.prems"(6)
  from "3.prems"(7) obtain ws where
    ws: "map_of doms var = Some ws" "val \<in> set ws" "set rest \<subseteq> set ws"
    by auto
  from un have vv: "var \<in> set (variables cw)" and vk: "var \<notin> set (map fst (h ! r))"
    by (simp_all add: unassigned_vars_def)
  define a' where "a' = AList.update var val (h ! r)"
  define h2 where "h2 = h @ [a']"
  have nl: "\<not> length h \<le> r" using valid by simp
  have al: "(length h, h @ [h ! r]) = alloc h (h ! r)"
    by (simp add: alloc_def)
  have h2': "h2 = (h @ [h ! r])[length h := AList.update var val ((h @ [h ! r]) ! length h)]"
    by (simp add: h2_def a'_def)
  have new: "h2 ! length h = a'" by (simp add: h2_def)
  have old: "h2 ! r = h ! r" using valid by (simp add: h2_def nth_append)
  have valid2: "r < length h2" "length h < length h2"
    using valid by (simp_all add: h2_def)
  have ka: "map fst a' = map fst (h ! r) @ [var]"
    using vk by (simp add: a'_def update_keys)
  have dist': "distinct (map fst a')" using dist vk by (simp add: ka)
  have keys': "set (map fst a') \<subseteq> set (variables cw)" using keys vv by (simp add: ka)
  have rest: "\<exists>ws. map_of doms var = Some ws \<and> set rest \<subseteq> set ws"
    using ws by simp
  have c: "consistent cw a' = Inr (legal cw a')"
    using wf keys' by (rule consistent_total)
  then have c2: "consistent cw (h2 ! length h) = Inr (legal cw a')" by (simp add: new)
  note eq = backtrack_loop_Cons [OF valid, of cw doms var val rest, folded a'_def,
      folded h2_def]
  show ?case
  proof (cases "legal cw a'")
    case False
    have no_val: "\<not> (solution cw doms (h ! r) s \<and> map_of s var = Some val)" for s
    proof
      assume s: "solution cw doms (h ! r) s \<and> map_of s var = Some val"
      then have "solution cw doms a' s"
        unfolding a'_def by (auto intro: solution_update)
      then have "legal cw s" "extends a' s"
        by (simp_all add: solution_def consistent_legal)
      with dist' have "legal cw a'" by (auto intro: legal_hereditary)
      with False show False ..
    qed
    from "3.IH"(3) [OF nl al h2' c2 False wf nc valid2(1)] dist keys un rest old
    obtain res h' where
      l: "backtrack_loop cw doms h2 r var rest = (Inr res, doms, h')" and
      n: "res = None \<Longrightarrow>
            \<not> (\<exists>s. solution cw doms (h ! r) s \<and> (\<exists>val\<in>set rest. map_of s var = Some val))"
      by auto
    from eq c False l
    have "backtrack_loop cw doms h r var (val # rest) = (Inr res, doms, h')"
      by simp
    moreover have "\<not> (\<exists>s. solution cw doms (h ! r) s \<and>
                      (\<exists>v\<in>set (val # rest). map_of s var = Some v))" if "res = None"
      using n [OF that] no_val by auto
    ultimately show ?thesis by blast
  next
    case True
    from "3.IH"(1) [OF nl al h2' c2 True wf nc valid2(2)] dist' keys' new
    obtain res1 h1 where
      b: "backtrack cw doms h2 (length h) = (Inr res1, doms, h1)" and
      n1: "res1 = None \<Longrightarrow> \<not> (\<exists>s. solution cw doms a' s)"
      by auto
    from backtrack_sound(1) [OF valid2(2) b] new
    obtain ext where h1: "h1 = h2 @ ext"
      and p: "\<And>r'. res1 = Some r' \<Longrightarrow> post cw doms a' (h1 ! r')"
      by auto
    have old1: "h1 ! r = h ! r" "r < length h1"
      using valid by (simp_all add: h1 h2_def nth_append)
    show ?thesis
    proof (cases res1)
      case (Some r')
      from p [OF Some] have "map_of (h1 ! r') var = Some val"
        by (simp add: post_def extends_def a'_def update_conv')
      then have "h1 ! r' \<noteq> []" by auto
      with Some have "truthy h1 res1" by (simp add: truthy_def)
      with eq c True b Some
      have "backtrack_loop cw doms h r var (val # rest) = (Inr (Some r'), doms, h1)"
        by simp
      then show ?thesis by blast
    next
      case None
      then have t: "\<not> truthy h1 res1" by (simp add: truthy_def)
      have no_val: "\<not> (solution cw doms (h ! r) s \<and> map_of s var = Some val)" for s
      proof
        assume "solution cw doms (h ! r) s \<and> map_of s var = Some val"
        then have "solution cw doms a' s"
          unfolding a'_def by (auto intro: solution_update)
        with n1 [OF None] show False by blast
      qed
      from "3.IH"(2) [OF nl al h2' c2 True b [symmetric] refl refl t wf nc old1(2)]
        dist keys un rest old1(1)
      obtain res h' where
        l: "backtrack_loop cw doms h1 r var rest = (Inr res, doms, h')" and
        n: "res = None \<Longrightarrow>
              \<not> (\<exists>s. solution cw doms (h ! r) s \<and> (\<exists>val\<in>set rest. map_of s var = Some val))"
        by auto
      from eq c True b t l
      have "backtrack_loop cw doms h r var (val # rest) = (Inr res, doms, h')"
        by simp
      moreover have "\<not> (\<exists>s. solution cw doms (h ! r) s \<and>
                        (\<exists>v\<in>set (val # rest). map_of s var = Some v))" if "res = None"
        using n [OF that] no_val by auto
      ultimately show ?thesis by blast
    qed
  qed
qed

text \<open>
  Claim C3, as the code has it. Take a well-formed puzzle, a node-consistent store and a
  partial assignment that is incomplete or passes the checker. \<open>backtrack\<close> returns without
  raising; it returns a complete assignment that passes the checker, extends the given
  one and takes the word of every newly bound variable from that variable's domain if
  such an assignment exists, and the failure value if none exists.
\<close>

theorem backtrack_finds_solution:
  assumes "wf_crossword cw" and "node_consistent cw doms"
    and "assignment < length h"
    and "distinct (map fst (h ! assignment))"
    and "set (map fst (h ! assignment)) \<subseteq> set (variables cw)"
    and "assignment_complete cw (h ! assignment) \<longrightarrow> consistent cw (h ! assignment) = Inr True"
  shows "\<exists>res h'. backtrack cw doms h assignment = (Inr res, doms, h') \<and>
           (case res of
              Some result \<Rightarrow>
                result < length h' \<and> solution cw doms (h ! assignment) (h' ! result)
            | None \<Rightarrow> \<not> (\<exists>s. solution cw doms (h ! assignment) s))"
proof -
  from backtrack_complete(1) [OF assms(1-5)] obtain res h' where
    b: "backtrack cw doms h assignment = (Inr res, doms, h')" and
    n: "res = None \<Longrightarrow> \<not> (\<exists>s. solution cw doms (h ! assignment) s)"
    by blast
  from backtrack_sound(1) [OF assms(3) b] obtain ext where
    e: "h' = h @ ext" and
    s: "\<And>r'. res = Some r' \<Longrightarrow>
          r' < length h' \<and> post cw doms (h ! assignment) (h' ! r') \<and>
          (r' = assignment \<or> consistent cw (h' ! r') = Inr True)"
    by auto
  have "result < length h' \<and> solution cw doms (h ! assignment) (h' ! result)"
    if r: "res = Some result" for result
  proof -
    from s [OF r] have v: "result < length h'"
      and p: "post cw doms (h ! assignment) (h' ! result)"
      and c: "result = assignment \<or> consistent cw (h' ! result) = Inr True"
      by simp_all
    from c have "consistent cw (h' ! result) = Inr True"
    proof
      assume ra: "result = assignment"
      with e assms(3) have "h' ! result = h ! assignment"
        by (simp add: nth_append)
      with p assms(6) show ?thesis by (simp add: post_def)
    qed
    with v p show ?thesis by (simp add: solution_def post_def)
  qed
  with b n show ?thesis
    by (cases res) auto
qed

text \<open>
  The claim as stated, for every partial assignment, fails: \<open>backtrack\<close> returns a complete
  assignment as it is, without checking it. Given the assignment of the two-letter word
  to the three-letter slot it returns that assignment, which the checker rejects: it does
  not return the failure value although no consistent assignment extends the given one,
  and what it returns is not a consistent assignment although the domains hold one.
\<close>

theorem backtrack_returns_inconsistent_assignment:
  "backtrack single_slot (enforce_node_consistency (init_domains single_slot))
     [[(slot_a, ''ox'')]] 0 =
     (Inr (Some 0), enforce_node_consistency (init_domains single_slot), [[(slot_a, ''ox'')]]) \<and>
   consistent single_slot [(slot_a, ''ox'')] = Inr False \<and>
   solution single_slot (enforce_node_consistency (init_domains single_slot))
     [] [(slot_a, ''cat'')] \<and>
   \<not> (\<exists>s. solution single_slot (enforce_node_consistency (init_domains single_slot))
             [(slot_a, ''ox'')] s)"
proof (intro conjI)
  have d: "enforce_node_consistency (init_domains single_slot) = [(slot_a, [''cat'', ''dog''])]"
    by code_simp
  have c: "assignment_complete single_slot [(slot_a, ''cat'')]"
    "consistent single_slot [(slot_a, ''cat'')] = Inr True"
    by code_simp+
  have "from_domains [(slot_a, [''cat'', ''dog''])] [] [(slot_a, ''cat'')]"
    by (simp add: from_domains_def)
  with c show "solution single_slot (enforce_node_consistency (init_domains single_slot))
     [] [(slot_a, ''cat'')]"
    by (simp add: solution_def d extends_def)
  show "backtrack single_slot (enforce_node_consistency (init_domains single_slot))
     [[(slot_a, ''ox'')]] 0 =
     (Inr (Some 0), enforce_node_consistency (init_domains single_slot), [[(slot_a, ''ox'')]])"
    by code_simp
  show "consistent single_slot [(slot_a, ''ox'')] = Inr False"
    by code_simp
  show "\<not> (\<exists>s. solution single_slot (enforce_node_consistency (init_domains single_slot))
             [(slot_a, ''ox'')] s)"
  proof
    assume "\<exists>s. solution single_slot (enforce_node_consistency (init_domains single_slot))
             [(slot_a, ''ox'')] s"
    then obtain s where c: "consistent single_slot s = Inr True"
      and e: "extends [(slot_a, ''ox'')] s"
      by (auto simp: solution_def)
    from c have l: "legal single_slot s" by (rule consistent_legal)
    from e have "map_of s slot_a = Some ''ox''"
      by (simp add: extends_def)
    then have "(slot_a, ''ox'') \<in> set s" by (rule map_of_SomeD)
    with l have "vlength slot_a = length ''ox''"
      by (auto simp: legal_def)
    then show False by (simp add: slot_a_def)
  qed
qed

subsection \<open>The properties on the example puzzles\<close>

lemma wf_two_slots: "wf_crossword two_slots"
  by code_simp

lemma ac3_two_slots: "ac3 two_slots two_slots_doms None = (Inr True, two_slots_pruned)"
  by code_simp

theorem node_consistency_witness:
  "map_of (init_domains single_slot) slot_a = Some [''cat'', ''dog'', ''ox''] \<and>
   map_of (enforce_node_consistency (init_domains single_slot)) slot_a = Some [''cat'', ''dog''] \<and>
   map fst (enforce_node_consistency (init_domains single_slot)) = [slot_a] \<and>
   length ''cat'' = vlength slot_a \<and> length ''dog'' = vlength slot_a \<and>
   map_of (enforce_node_consistency (init_domains two_slots)) slot_d =
     Some [''cat'', ''car'', ''art''] \<and>
   map fst (enforce_node_consistency (init_domains two_slots)) = [slot_a, slot_d]"
proof -
  have v: "slot_a \<in> set (variables single_slot)" by code_simp
  have w: "words single_slot = [''cat'', ''dog'', ''ox'']" by code_simp
  have l: "vlength slot_a = 3" "vlength slot_d = 3" by code_simp+
  have v2: "slot_d \<in> set (variables two_slots)" by code_simp
  have w2: "words two_slots = [''cat'', ''car'', ''art'']" by code_simp
  have vs: "variables single_slot = [slot_a]" "variables two_slots = [slot_a, slot_d]"
    by code_simp+
  note t1 = node_consistency [of single_slot "init_domains single_slot"]
  note t2 = node_consistency [of two_slots "init_domains two_slots"]
  from t1 v have i: "map_of (init_domains single_slot) slot_a = Some (words single_slot)"
    by blast
  from t1 v have "map_of (enforce_node_consistency (init_domains single_slot)) slot_a =
      Some (filter (\<lambda>w. vlength slot_a = length w) (words single_slot))"
    by blast
  then have e: "map_of (enforce_node_consistency (init_domains single_slot)) slot_a =
      Some [''cat'', ''dog'']"
    by (simp add: w l)
  from t1 have "map fst (enforce_node_consistency (init_domains single_slot)) =
      map fst (init_domains single_slot)" "map fst (init_domains single_slot) = variables single_slot"
    by blast+
  then have k: "map fst (enforce_node_consistency (init_domains single_slot)) = [slot_a]"
    by (simp add: vs)
  from t1 e have "\<forall>w\<in>set [''cat'', ''dog'']. length w = vlength slot_a"
    by blast
  then have len: "length ''cat'' = vlength slot_a" "length ''dog'' = vlength slot_a"
    by (simp_all del: length_Cons list.size)
  from t2 v2 have "map_of (enforce_node_consistency (init_domains two_slots)) slot_d =
      Some (filter (\<lambda>w. vlength slot_d = length w) (words two_slots))"
    by blast
  then have e2: "map_of (enforce_node_consistency (init_domains two_slots)) slot_d =
      Some [''cat'', ''car'', ''art'']"
    by (simp add: w2 l)
  from t2 have "map fst (enforce_node_consistency (init_domains two_slots)) =
      map fst (init_domains two_slots)" "map fst (init_domains two_slots) = variables two_slots"
    by blast+
  then have k2: "map fst (enforce_node_consistency (init_domains two_slots)) = [slot_a, slot_d]"
    by (simp add: vs)
  from i w e k len e2 k2 show ?thesis
    by (simp del: length_Cons list.size)
qed

theorem revise_removes_unsupported_witness:
  "\<exists>revised doms'.
     revise two_slots two_slots_doms slot_a slot_d = (Inr revised, doms') \<and> revised \<and>
     map_of doms' slot_a = Some [''cat'', ''car''] \<and>
     map_of doms' slot_d = Some [''cat'', ''car'', ''art'']"
proof -
  let ?ws = "[''cat'', ''car'', ''art'']"
  have x: "map_of two_slots_doms slot_a = Some ?ws" by code_simp
  have y: "map_of two_slots_doms slot_d = Some ?ws" by code_simp
  have o: "overlaps two_slots (slot_a, slot_d) = Some (Some (1, 0))" by code_simp
  have ne: "slot_d \<noteq> slot_a" by code_simp
  have f: "filter (\<lambda>w. \<exists>w'\<in>set ?ws. w ! 1 = w' ! 0) ?ws = [''cat'', ''car'']"
    by simp
  have u: "\<exists>w\<in>set ?ws. \<not> (\<exists>w'\<in>set ?ws. w ! 1 = w' ! 0)"
    by simp
  from revise_removes_unsupported [OF x y, of two_slots]
  have "overlaps two_slots (slot_a, slot_d) = Some (Some (1, 0)) \<and>
        (\<forall>w\<in>set ?ws. 1 < length w) \<and> (\<forall>w\<in>set ?ws. 0 < length w) \<longrightarrow>
        (\<exists>revised doms'.
           revise two_slots two_slots_doms slot_a slot_d = (Inr revised, doms') \<and>
           map_of doms' slot_a = Some (filter (\<lambda>w. \<exists>w'\<in>set ?ws. w ! 1 = w' ! 0) ?ws) \<and>
           (\<forall>z. z \<noteq> slot_a \<longrightarrow> map_of doms' z = map_of two_slots_doms z) \<and>
           map fst doms' = map fst two_slots_doms \<and>
           (revised \<longleftrightarrow> (\<exists>w\<in>set ?ws. \<not> (\<exists>w'\<in>set ?ws. w ! 1 = w' ! 0))))"
    by blast
  with o have "\<exists>revised doms'.
           revise two_slots two_slots_doms slot_a slot_d = (Inr revised, doms') \<and>
           map_of doms' slot_a = Some (filter (\<lambda>w. \<exists>w'\<in>set ?ws. w ! 1 = w' ! 0) ?ws) \<and>
           (\<forall>z. z \<noteq> slot_a \<longrightarrow> map_of doms' z = map_of two_slots_doms z) \<and>
           map fst doms' = map fst two_slots_doms \<and>
           (revised \<longleftrightarrow> (\<exists>w\<in>set ?ws. \<not> (\<exists>w'\<in>set ?ws. w ! 1 = w' ! 0)))"
    by simp
  then obtain revised doms' where
    r: "revise two_slots two_slots_doms slot_a slot_d = (Inr revised, doms')" and
    m: "map_of doms' slot_a = Some (filter (\<lambda>w. \<exists>w'\<in>set ?ws. w ! 1 = w' ! 0) ?ws)" and
    z: "\<forall>z. z \<noteq> slot_a \<longrightarrow> map_of doms' z = map_of two_slots_doms z" and
    v: "revised \<longleftrightarrow> (\<exists>w\<in>set ?ws. \<not> (\<exists>w'\<in>set ?ws. w ! 1 = w' ! 0))"
    by blast
  from z ne y have d: "map_of doms' slot_d = Some ?ws" by simp
  from v u have revised by blast
  with r m f d show ?thesis by auto
qed

theorem domains_only_shrink_witness:
  "shrunk (init_domains two_slots) two_slots_doms slot_a \<and>
   shrunk two_slots_doms (snd (revise two_slots two_slots_doms slot_a slot_d)) slot_a \<and>
   shrunk two_slots_doms two_slots_pruned slot_a"
  using domains_only_shrink [of "init_domains two_slots" slot_a two_slots slot_a slot_d None]
    domains_only_shrink [of two_slots_doms slot_a two_slots slot_a slot_d None]
    ac3_two_slots
  by (simp add: two_slots_doms_def)

theorem ac3_success_arc_consistent_witness:
  "ac3 two_slots two_slots_doms None = (Inr True, two_slots_pruned) \<and>
   (\<exists>i j xs ys. overlaps two_slots (slot_a, slot_d) = Some (Some (i, j)) \<and>
      map_of two_slots_pruned slot_a = Some xs \<and> map_of two_slots_pruned slot_d = Some ys \<and>
      list_all (\<lambda>w. list_ex (\<lambda>w'. i < length w \<and> j < length w' \<and> w ! i = w' ! j) ys) xs)"
proof -
  have hd: "has_domains two_slots two_slots_doms" by code_simp
  have x: "slot_a \<in> set (variables two_slots)" by code_simp
  have y: "slot_d \<in> set (neighbors two_slots slot_a)" by code_simp
  from ac3_success_arc_consistent [OF wf_two_slots hd ac3_two_slots x y] ac3_two_slots
  show ?thesis
    by (simp add: list_all_iff list_ex_iff)
qed

theorem ac3_idempotent_witness:
  "ac3 two_slots two_slots_doms None = (Inr True, two_slots_pruned) \<and>
   ac3 two_slots two_slots_pruned None = (Inr True, two_slots_pruned) \<and>
   revise two_slots two_slots_pruned slot_a slot_d = (Inr False, two_slots_pruned) \<and>
   revise two_slots two_slots_pruned slot_d slot_a = (Inr False, two_slots_pruned)"
proof -
  have nc: "node_consistent two_slots two_slots_doms" by code_simp
  have a: "initial_arcs two_slots = [(slot_a, slot_d), (slot_d, slot_a)]" by code_simp
  from ac3_idempotent [OF wf_two_slots nc ac3_two_slots] a ac3_two_slots
  show ?thesis by simp
qed

theorem backtrack_keeps_domains_witness:
  "fst (snd (backtrack two_slots two_slots_pruned [[]] 0)) = two_slots_pruned \<and>
   fst (backtrack two_slots two_slots_pruned [[]] 0) = Inr (Some 2)"
proof -
  have "fst (backtrack two_slots two_slots_pruned [[]] 0) = Inr (Some 2)"
    by code_simp
  with backtrack_keeps_domains [of two_slots two_slots_pruned "[[]]" 0] show ?thesis
    by simp
qed

theorem backtrack_keeps_assignment_witness:
  "backtrack two_slots two_slots_pruned [[(slot_d, ''art'')]] 0 =
     (Inr (Some 1), two_slots_pruned,
      [[(slot_d, ''art'')], [(slot_d, ''art''), (slot_a, ''cat'')]]) \<and>
   take 1 [[(slot_d, ''art'')], [(slot_d, ''art''), (slot_a, ''cat'')]] = [[(slot_d, ''art'')]] \<and>
   map_of ([[(slot_d, ''art'')], [(slot_d, ''art''), (slot_a, ''cat'')]] ! 1) slot_d = Some ''art''"
proof -
  let ?h = "[[(slot_d, ''art'')]]"
  let ?h' = "[[(slot_d, ''art'')], [(slot_d, ''art''), (slot_a, ''cat'')]]"
  have b: "backtrack two_slots two_slots_pruned ?h 0 = (Inr (Some 1), two_slots_pruned, ?h')"
    by code_simp
  have v: "0 < length ?h" by simp
  have m: "map_of (?h ! 0) slot_d = Some ''art''" by simp
  note t = backtrack_keeps_assignment [OF v b]
  from t have "take (length ?h) ?h' = ?h" by blast
  then have k: "take 1 ?h' = ?h" by simp
  from t m have "map_of (?h' ! 1) slot_d = Some ''art''" by blast
  with b k show ?thesis by blast
qed

theorem solve_result_consistent_witness:
  "fst (solve two_slots (init_domains two_slots) []) =
     (Inr (Some 2), two_slots_pruned, two_slots_heap) \<and>
   set (map fst (two_slots_heap ! 2)) = set (variables two_slots) \<and>
   distinct (map snd (two_slots_heap ! 2)) \<and>
   map_of (two_slots_heap ! 2) slot_a = Some ''cat'' \<and>
   map_of (two_slots_heap ! 2) slot_d = Some ''art'' \<and>
   ''cat'' ! 1 = ''art'' ! 0"
proof -
  have s: "fst (solve two_slots (init_domains two_slots) []) =
             (Inr (Some 2), two_slots_pruned, two_slots_heap)"
    by code_simp
  have a: "map_of (two_slots_heap ! 2) slot_a = Some ''cat''" by code_simp
  have d: "map_of (two_slots_heap ! 2) slot_d = Some ''art''" by code_simp
  have ne: "slot_a \<noteq> slot_d" by code_simp
  have o: "overlaps two_slots (slot_a, slot_d) = Some (Some (1, 0))" by code_simp
  note t = solve_result_consistent [OF s]
  from t have k: "set (map fst (two_slots_heap ! 2)) = set (variables two_slots)"
    and v: "distinct (map snd (two_slots_heap ! 2))"
    by blast+
  from t a d ne o have "''cat'' ! 1 = ''art'' ! 0"
    by blast
  with s k v a d show ?thesis by blast
qed

theorem ac3_failure_no_solution_witness:
  "ac3 two_slots_unsolvable unsolvable_doms None = (Inr False, unsolvable_pruned) \<and>
   (\<exists>v ws. map_of unsolvable_doms v = Some ws \<and> ws \<noteq> [] \<and>
      map_of unsolvable_pruned v = Some []) \<and>
   solve two_slots_unsolvable (init_domains two_slots_unsolvable) [] =
     ((Inr None, unsolvable_pruned, [[]]),
      [Call_enforce_node_consistency, Call_ac3, Call_backtrack])"
proof -
  have hd: "has_domains two_slots_unsolvable (init_domains two_slots_unsolvable)"
    by code_simp
  have a: "ac3 two_slots_unsolvable
             (enforce_node_consistency (init_domains two_slots_unsolvable)) None =
           (Inr False, unsolvable_pruned)"
    by code_simp
  from ac3_failure_no_solution [OF hd a, of "[]"] a show ?thesis
    by (simp add: unsolvable_doms_def)
qed

theorem backtrack_finds_solution_witness:
  "(\<exists>result h'.
      backtrack two_slots two_slots_pruned [[]] 0 = (Inr (Some result), two_slots_pruned, h') \<and>
      result < length h' \<and> solution two_slots two_slots_pruned [] (h' ! result)) \<and>
   (\<exists>h'. backtrack two_slots_unsolvable unsolvable_doms [[]] 0 =
           (Inr None, unsolvable_doms, h') \<and>
         \<not> (\<exists>s. solution two_slots_unsolvable unsolvable_doms [] s))"
proof -
  have v: "0 < length [[]::assignment]" by simp
  have d: "distinct (map fst ([[]::assignment] ! 0))" by simp
  have nc1: "node_consistent two_slots two_slots_pruned" by code_simp
  have k1: "set (map fst ([[]::assignment] ! 0)) \<subseteq> set (variables two_slots)" by simp
  have c1: "assignment_complete two_slots ([[]] ! 0)
              \<longrightarrow> consistent two_slots ([[]] ! 0) = Inr True"
    by code_simp
  have r1: "fst (backtrack two_slots two_slots_pruned [[]] 0) = Inr (Some 2)"
    by code_simp
  from backtrack_finds_solution [OF wf_two_slots nc1 v d k1 c1] obtain res h' where
    b: "backtrack two_slots two_slots_pruned [[]] 0 = (Inr res, two_slots_pruned, h')" and
    p: "case res of
          Some result \<Rightarrow> result < length h' \<and> solution two_slots two_slots_pruned ([[]] ! 0) (h' ! result)
        | None \<Rightarrow> \<not> (\<exists>s. solution two_slots two_slots_pruned ([[]] ! 0) s)"
    by blast
  from b r1 have "res = Some 2" by simp
  with b p have first: "\<exists>result h'.
      backtrack two_slots two_slots_pruned [[]] 0 = (Inr (Some result), two_slots_pruned, h') \<and>
      result < length h' \<and> solution two_slots two_slots_pruned [] (h' ! result)"
    by auto
  have wf2: "wf_crossword two_slots_unsolvable" by code_simp
  have nc2: "node_consistent two_slots_unsolvable unsolvable_doms" by code_simp
  have k2: "set (map fst ([[]::assignment] ! 0)) \<subseteq> set (variables two_slots_unsolvable)"
    by simp
  have c2: "assignment_complete two_slots_unsolvable ([[]] ! 0)
              \<longrightarrow> consistent two_slots_unsolvable ([[]] ! 0) = Inr True"
    by code_simp
  have r2: "fst (backtrack two_slots_unsolvable unsolvable_doms [[]] 0) = Inr None"
    by code_simp
  from backtrack_finds_solution [OF wf2 nc2 v d k2 c2] obtain res2 h2 where
    b2: "backtrack two_slots_unsolvable unsolvable_doms [[]] 0 = (Inr res2, unsolvable_doms, h2)"
    and p2: "case res2 of
          Some result \<Rightarrow> result < length h2 \<and>
            solution two_slots_unsolvable unsolvable_doms ([[]] ! 0) (h2 ! result)
        | None \<Rightarrow> \<not> (\<exists>s. solution two_slots_unsolvable unsolvable_doms ([[]] ! 0) s)"
    by blast
  from b2 r2 have "res2 = None" by simp
  with b2 p2 have "\<exists>h'. backtrack two_slots_unsolvable unsolvable_doms [[]] 0 =
           (Inr None, unsolvable_doms, h') \<and>
         \<not> (\<exists>s. solution two_slots_unsolvable unsolvable_doms [] s)"
    by auto
  with first show ?thesis by blast
qed

end
